theory Spec2Isabelle
  imports Complex_Main
begin

section \<open>MALIS loss and gradient on a dense affinity graph\<close>

text \<open>
  The development embeds \<^verbatim>\<open>malis_impl.hxx\<close>: the single-polarity sweep
  \<^verbatim>\<open>compute_malis_gradient\<close> and the wrapper
  \<^verbatim>\<open>compute_constrained_malis_gradient\<close>.

  Conventions of the embedding.
  \<^item> \<^verbatim>\<open>DATA_TYPE\<close> (and the \<^verbatim>\<open>double\<close> accumulators) are the reals: arithmetic is
    exact, rounding is not modelled.
  \<^item> \<^verbatim>\<open>LABEL_TYPE\<close>, \<^verbatim>\<open>size_t\<close> and \<^verbatim>\<open>int64_t\<close> values are natural numbers. The one
    place where the source subtracts below zero, \<^verbatim>\<open>numberOfLabeledNodes - 1\<close> with no
    labeled node, is multiplied by zero, so the wrapped and the truncated difference
    give the same product.
    Sizes and node indices are taken to fit the C++ types that hold them
    (\<^verbatim>\<open>int\<close>, \<^verbatim>\<open>size_t\<close>, \<^verbatim>\<open>LabelType\<close>): no count of the sweep exceeds the number of
    pairs of pixels.
  \<^item> The template parameter \<^verbatim>\<open>DIM\<close> is the first argument \<open>D\<close> of every function.
  \<^item> An exception is a value: a call returns the error raised (if any) together with the
    output parameters as they are at that moment.
\<close>

subsection \<open>Array views\<close>

text \<open>
  Modelled from the spec: the array library (\<^verbatim>\<open>nifty::marray\<close>) is not part of the
  sources. A view is a shape and its elements in row-major order; \<open>strides\<close> are the
  row-major strides of that shape, which is what the source's decoding of a flat edge
  index by \<^verbatim>\<open>affinities.strides\<close> presumes.
\<close>

record 'a View =
  shape :: "nat list"
  data :: "'a list"

definition view_size :: "'a View \<Rightarrow> nat" where
  "view_size v = prod_list (shape v)"

definition strides :: "'a View \<Rightarrow> nat \<Rightarrow> nat" where
  "strides v d = prod_list (drop (Suc d) (shape v))"

text \<open>The position of the element at a coordinate, and the element itself (\<^verbatim>\<open>v(coord)\<close>).\<close>

definition view_index :: "'a View \<Rightarrow> nat list \<Rightarrow> nat" where
  "view_index v coord = (\<Sum>d\<leftarrow>[0..<length (shape v)]. coord ! d * strides v d)"

definition view_at :: "'a View \<Rightarrow> nat list \<Rightarrow> 'a" where
  "view_at v coord = data v ! view_index v coord"

definition view_set :: "'a View \<Rightarrow> nat list \<Rightarrow> 'a \<Rightarrow> 'a View" where
  "view_set v coord x = v\<lparr>data := (data v)[view_index v coord := x]\<rparr>"

text \<open>\<^verbatim>\<open>forEachCoordinate\<close>: all coordinates of a shape, the last axis running fastest.\<close>

fun forEachCoordinate :: "nat list \<Rightarrow> nat list list" where
  "forEachCoordinate [] = [[]]"
| "forEachCoordinate (n # ns) =
     concat (map (\<lambda>i. map ((#) i) (forEachCoordinate ns)) [0..<n])"

text \<open>A view is well formed when it holds one element per coordinate.\<close>

definition wf_view :: "nat \<Rightarrow> 'a View \<Rightarrow> bool" where
  "wf_view n v \<longleftrightarrow> length (shape v) = n \<and> length (data v) = view_size v"

subsection \<open>Disjoint sets\<close>

text \<open>
  Modelled from the spec: \<^verbatim>\<open>nifty::ufd::Ufd\<close> is not part of the sources. The forest is
  kept fully compressed (every element points at its representative), so \<open>find\<close> is a
  lookup; \<open>merge\<close> links by rank and may keep either of its two arguments as the
  representative.
\<close>

record Ufd =
  parents :: "nat list"
  ranks :: "nat list"

definition ufd_init :: "nat \<Rightarrow> Ufd" where
  "ufd_init n = \<lparr>parents = [0..<n], ranks = replicate n 0\<rparr>"

definition ufd_find :: "Ufd \<Rightarrow> nat \<Rightarrow> nat" where
  "ufd_find u e = parents u ! e"

definition ufd_link :: "Ufd \<Rightarrow> nat \<Rightarrow> nat \<Rightarrow> Ufd" where
  "ufd_link u child r = u\<lparr>parents := map (\<lambda>p. if p = child then r else p) (parents u)\<rparr>"

definition ufd_merge :: "Ufd \<Rightarrow> nat \<Rightarrow> nat \<Rightarrow> Ufd" where
  "ufd_merge u element1 element2 =
     (let e1 = ufd_find u element1; e2 = ufd_find u element2 in
      if ranks u ! e1 < ranks u ! e2 then ufd_link u e1 e2
      else if ranks u ! e1 > ranks u ! e2 then ufd_link u e2 e1
      else if e1 \<noteq> e2 then (ufd_link u e2 e1)\<lparr>ranks := (ranks u)[e1 := ranks u ! e1 + 1]\<rparr>
      else u)"

subsection \<open>Overlap maps\<close>

text \<open>
  A \<^verbatim>\<open>std::map<LabelType, size_t>\<close> is the list of its entries in increasing key order,
  the order in which its iterators visit them.
\<close>

type_synonym label_map = "(nat \<times> nat) list"

fun map_find :: "nat \<Rightarrow> label_map \<Rightarrow> nat option" where
  "map_find k [] = None"
| "map_find k ((k', c) # m) = (if k = k' then Some c else map_find k m)"

text \<open>\<^verbatim>\<open>insert\<close> leaves the map as it is when the key is present.\<close>

fun map_insert :: "nat \<times> nat \<Rightarrow> label_map \<Rightarrow> label_map" where
  "map_insert (k, c) [] = [(k, c)]"
| "map_insert (k, c) ((k', c') # m) =
     (if k = k' then (k', c') # m
      else if k < k' then (k, c) # (k', c') # m
      else (k', c') # map_insert (k, c) m)"

text \<open>\<^verbatim>\<open>it->second += v\<close> for the entry found under a key.\<close>

fun map_add :: "nat \<Rightarrow> nat \<Rightarrow> label_map \<Rightarrow> label_map" where
  "map_add k v [] = []"
| "map_add k v ((k', c) # m) =
     (if k = k' then (k', c + v) # m else (k', c) # map_add k v m)"

text \<open>
  The \<^verbatim>\<open>while\<close> loop that moves the entries of the emptied bag \<open>mV\<close> into the kept bag
  \<open>mU\<close>; it returns the kept bag (the emptied one ends up empty).
\<close>

fun move_entries :: "label_map \<Rightarrow> label_map \<Rightarrow> label_map" where
  "move_entries mU [] = mU"
| "move_entries mU ((k, c) # mV) =
     move_entries (case map_find k mU of
                     None \<Rightarrow> map_insert (k, c) mU
                   | Some _ \<Rightarrow> map_add k c mU) mV"

subsection \<open>The initial scan of the ground truth\<close>

record scan_state =
  overlaps :: "label_map list"
  segmentSizes :: "nat \<Rightarrow> nat"
  numberOfLabeledNodes :: nat
  nPairPos :: nat
  nodeIndex :: nat

definition scan_step :: "nat View \<Rightarrow> scan_state \<Rightarrow> nat list \<Rightarrow> scan_state" where
  "scan_step groundtruth s coord =
     (let gtId = view_at groundtruth coord;
          s1 = (if gtId \<noteq> 0 then
                  (let sizes = (segmentSizes s)(gtId := segmentSizes s gtId + 1) in
                   s\<lparr>overlaps := (overlaps s)[nodeIndex s :=
                                    map_insert (gtId, 1) (overlaps s ! nodeIndex s)],
                     segmentSizes := sizes,
                     numberOfLabeledNodes := numberOfLabeledNodes s + 1,
                     nPairPos := nPairPos s + (sizes gtId - 1)\<rparr>)
                else s)
      in s1\<lparr>nodeIndex := nodeIndex s1 + 1\<rparr>)"

definition scan_groundtruth :: "nat View \<Rightarrow> scan_state" where
  "scan_groundtruth groundtruth =
     foldl (scan_step groundtruth)
       \<lparr>overlaps = replicate (view_size groundtruth) [], segmentSizes = (\<lambda>_. 0),
        numberOfLabeledNodes = 0, nPairPos = 0, nodeIndex = 0\<rparr>
       (forEachCoordinate (shape groundtruth))"

subsection \<open>The sweep\<close>

text \<open>
  The state of the loop over the sorted edges. \<open>nPairCounted\<close> is a ghost accumulator,
  not a variable of the source: it adds up \<open>nPair\<close> each time one of the two counting
  branches is taken, and nothing reads it.
\<close>

record sweep_state =
  sets :: Ufd
  bags :: "label_map list"
  loss :: real
  nPairIncorrect :: nat
  gradients :: "real View"
  nPairCounted :: nat

text \<open>The body of the two nested loops over the entries of the two bags.\<close>

definition pair_step ::
  "bool \<Rightarrow> real View \<Rightarrow> nat list \<Rightarrow> nat \<times> nat \<Rightarrow> sweep_state \<Rightarrow> nat \<times> nat \<Rightarrow> sweep_state" where
  "pair_step pos affinities affCoord itU st itV =
     (let nPair = snd itU * snd itV in
      if pos \<and> fst itU = fst itV then
        (let affinity = view_at affinities affCoord;
             gradient = 1 - affinity
         in st\<lparr>loss := loss st + gradient * gradient * real nPair,
               gradients := view_set (gradients st) affCoord
                              (view_at (gradients st) affCoord + gradient * real nPair),
               nPairIncorrect := (if affinity \<le> 1 / 2 then nPairIncorrect st + nPair
                                  else nPairIncorrect st),
               nPairCounted := nPairCounted st + nPair\<rparr>)
      else if \<not> pos \<and> fst itU \<noteq> fst itV then
        (let affinity = view_at affinities affCoord;
             gradient = - affinity
         in st\<lparr>loss := loss st + gradient * gradient * real nPair,
               gradients := view_set (gradients st) affCoord
                              (view_at (gradients st) affCoord + gradient * real nPair),
               nPairIncorrect := (if affinity > 1 / 2 then nPairIncorrect st + nPair
                                  else nPairIncorrect st),
               nPairCounted := nPairCounted st + nPair\<rparr>)
      else st)"

definition pair_loops ::
  "bool \<Rightarrow> real View \<Rightarrow> nat list \<Rightarrow> label_map \<Rightarrow> label_map \<Rightarrow> sweep_state \<Rightarrow> sweep_state" where
  "pair_loops pos affinities affCoord mU mV st =
     foldl (\<lambda>s itU. foldl (pair_step pos affinities affCoord itU) s mV) st mU"

text \<open>The decoding of a flat edge index into the coordinate of the affinity.\<close>

definition edge_coord :: "nat \<Rightarrow> real View \<Rightarrow> nat \<Rightarrow> nat list" where
  "edge_coord D affinities edgeIndex =
     (edgeIndex div strides affinities 0) #
     map (\<lambda>d. (edgeIndex mod strides affinities (d - 1)) div strides affinities d) [1..<D + 1]"

definition node_of :: "nat \<Rightarrow> nat View \<Rightarrow> nat list \<Rightarrow> nat" where
  "node_of D groundtruth gtCoord = (\<Sum>d\<leftarrow>[0..<D]. gtCoord ! d * strides groundtruth d)"

text \<open>
  One iteration of the loop over \<open>pqueue\<close>. When the source tests \<^verbatim>\<open>gtCoordV[axis] > 0\<close>
  both coordinates are still copies of the spatial part of \<open>affCoord\<close>, so the test
  reads \<open>gtCoordU\<close>; \<^verbatim>\<open>continue\<close> returns the state as it is. \<open>keep\<close> and \<open>gone\<close> are
  \<open>setU\<close> and \<open>setV\<close> after the conditional \<^verbatim>\<open>std::swap\<close>.
\<close>

definition edge_step ::
  "nat \<Rightarrow> real View \<Rightarrow> nat View \<Rightarrow> bool \<Rightarrow> nat \<Rightarrow> sweep_state \<Rightarrow> nat \<Rightarrow> sweep_state" where
  "edge_step D affinities groundtruth pos nPairNorm st edgeIndex =
     (let affCoord = edge_coord D affinities edgeIndex;
          axis = affCoord ! 0;
          gtCoordU = map (\<lambda>d. affCoord ! d) [1..<D + 1]
      in if \<not> gtCoordU ! axis > 0 then st
         else
          (let gtCoordV = gtCoordU[axis := gtCoordU ! axis - 1];
               nodeU = node_of D groundtruth gtCoordU;
               nodeV = node_of D groundtruth gtCoordV;
               setU = ufd_find (sets st) nodeU;
               setV = ufd_find (sets st) nodeV
           in if setU = setV then st
              else
               (let merged = ufd_merge (sets st) setU setV;
                    st1 = pair_loops pos affinities affCoord
                            (bags st ! setU) (bags st ! setV) st;
                    st2 = st1\<lparr>gradients := view_set (gradients st1) affCoord
                                (view_at (gradients st1) affCoord / real nPairNorm)\<rparr>;
                    (keep, gone) = (if ufd_find merged setU = setV then (setV, setU)
                                    else (setU, setV))
                in st2\<lparr>sets := merged,
                       bags := (bags st2)[keep := move_entries (bags st2 ! keep) (bags st2 ! gone),
                                          gone := []]\<rparr>)))"

text \<open>
  \<^verbatim>\<open>std::sort\<close> with the comparison \<^verbatim>\<open>flatView(ind1) > flatView(ind2)\<close>: the edge indices
  by decreasing affinity. The order of equal affinities is not fixed by \<^verbatim>\<open>std::sort\<close>;
  the model keeps them in increasing index order. The invariants of the sweep are
  proved for any queue of edge indices, so they do not depend on this choice.
\<close>

definition sorted_edges :: "real View \<Rightarrow> nat list" where
  "sorted_edges affinities =
     sort_key (\<lambda>ind. - (data affinities ! ind)) [0..<view_size affinities]"

subsection \<open>\<^verbatim>\<open>compute_malis_gradient\<close>\<close>

datatype error = ShapeMismatch | DegenerateNormalization

record outputs =
  gradientsOut :: "real View"
  lossOut :: real
  classificationErrorOut :: real
  randIndexOut :: real

definition shapes_match :: "nat \<Rightarrow> real View \<Rightarrow> nat View \<Rightarrow> real View \<Rightarrow> bool" where
  "shapes_match D affinities groundtruth gradients_out \<longleftrightarrow>
     shape affinities ! 0 = D \<and> shape gradients_out ! 0 = D \<and>
     (\<forall>d \<in> set [0..<D].
        shape affinities ! (d + 1) = shape groundtruth ! d \<and>
        shape affinities ! (d + 1) = shape gradients_out ! (d + 1))"

definition normalization :: "bool \<Rightarrow> scan_state \<Rightarrow> nat" where
  "normalization pos s =
     (if pos then nPairPos s
      else (let nPairTot = (numberOfLabeledNodes s * (numberOfLabeledNodes s - 1)) div 2
            in nPairTot - nPairPos s))"

definition sweep ::
  "nat \<Rightarrow> real View \<Rightarrow> nat View \<Rightarrow> bool \<Rightarrow> real View \<Rightarrow> nat list \<Rightarrow> sweep_state" where
  "sweep D affinities groundtruth pos gradients_out pqueue =
     (let s = scan_groundtruth groundtruth in
      foldl (edge_step D affinities groundtruth pos (normalization pos s))
        \<lparr>sets = ufd_init (view_size groundtruth), bags = overlaps s, loss = 0,
         nPairIncorrect = 0, gradients = gradients_out, nPairCounted = 0\<rparr>
        pqueue)"

definition compute_malis_gradient ::
  "nat \<Rightarrow> real View \<Rightarrow> nat View \<Rightarrow> bool \<Rightarrow> outputs \<Rightarrow> error option \<times> outputs" where
  "compute_malis_gradient D affinities groundtruth pos out =
     (if \<not> shapes_match D affinities groundtruth (gradientsOut out)
      then (Some ShapeMismatch, out)
      else
       (let nPairNorm = normalization pos (scan_groundtruth groundtruth) in
        if nPairNorm \<le> 0 then (Some DegenerateNormalization, out)
        else
         (let st = sweep D affinities groundtruth pos (gradientsOut out)
                     (sorted_edges affinities);
              l = (if nPairNorm > 0 then loss st / real nPairNorm else 0)
          in (None,
              \<lparr>gradientsOut = gradients st,
               lossOut = l,
               classificationErrorOut = real (nPairIncorrect st) / real nPairNorm,
               randIndexOut = 1 - real (nPairIncorrect st) / real nPairNorm\<rparr>))))"

subsection \<open>\<^verbatim>\<open>compute_constrained_malis_gradient\<close>\<close>

text \<open>
  The body of the loop that fills the two synthesized affinity fields; the state is the
  pair (\<open>affinitiesPos\<close>, \<open>affinitiesNeg\<close>).
\<close>

definition synth_step ::
  "nat \<Rightarrow> real View \<Rightarrow> nat View \<Rightarrow> real View \<times> real View \<Rightarrow> nat list \<Rightarrow> real View \<times> real View" where
  "synth_step D affinities groundtruth views affCoord =
     (let affinity = view_at affinities affCoord;
          axis = affCoord ! 0;
          gtCoordU = map (\<lambda>d. affCoord ! d) [1..<D + 1]
      in if \<not> gtCoordU ! axis > 0 then
           (view_set (fst views) affCoord 0, view_set (snd views) affCoord affinity)
         else
          (let gtCoordV = gtCoordU[axis := gtCoordU ! axis - 1];
               labelU = view_at groundtruth gtCoordU;
               labelV = view_at groundtruth gtCoordV
           in if labelU \<noteq> labelV \<or> labelU = 0 \<or> labelV = 0 then
                (view_set (fst views) affCoord 0, view_set (snd views) affCoord affinity)
              else
                (view_set (fst views) affCoord affinity, view_set (snd views) affCoord 1)))"

text \<open>
  \<^verbatim>\<open>Marray(SkipInitialization, shape)\<close> allocates without writing the elements: their
  initial values are unspecified.
\<close>

definition marray_uninitialized :: "nat list \<Rightarrow> real View" where
  "marray_uninitialized sh = \<lparr>shape = sh, data = replicate (prod_list sh) undefined\<rparr>"

definition marray_filled :: "nat list \<Rightarrow> real \<Rightarrow> real View" where
  "marray_filled sh x = \<lparr>shape = sh, data = replicate (prod_list sh) x\<rparr>"

definition synth_views :: "nat \<Rightarrow> real View \<Rightarrow> nat View \<Rightarrow> real View \<times> real View" where
  "synth_views D affinities groundtruth =
     foldl (synth_step D affinities groundtruth)
       (marray_uninitialized (shape affinities), marray_uninitialized (shape affinities))
       (forEachCoordinate (shape affinities))"

text \<open>
  The scalar locals handed to the two passes are uninitialized as well: \<open>lossPos\<close>,
  \<open>classErr\<close> and \<open>rand\<close> before the positive pass, \<open>lossNeg\<close> before the negative
  pass, which receives \<open>classErr\<close> and \<open>rand\<close> as the positive pass left them.
\<close>

definition local_outputs :: "real View \<Rightarrow> outputs" where
  "local_outputs g = \<lparr>gradientsOut = g, lossOut = undefined,
     classificationErrorOut = undefined, randIndexOut = undefined\<rparr>"

text \<open>
  The caller's output parameters of the wrapper are the pair (\<open>gradientsOut\<close>, \<open>lossOut\<close>).
  The assignment \<^verbatim>\<open>gradientsOut = gradNeg + gradPos\<close> writes the element-wise sum over
  the elements of the caller's view.
\<close>

definition compute_constrained_malis_gradient ::
  "nat \<Rightarrow> real View \<Rightarrow> nat View \<Rightarrow> real View \<times> real \<Rightarrow> error option \<times> (real View \<times> real)" where
  "compute_constrained_malis_gradient D affinities groundtruth out =
     (let (affinitiesPos, affinitiesNeg) = synth_views D affinities groundtruth;
          gradNeg = marray_filled (shape affinities) 0;
          gradPos = marray_filled (shape affinities) 0
      in case compute_malis_gradient D affinitiesPos groundtruth True (local_outputs gradPos) of
           (Some e, _) \<Rightarrow> (Some e, out)
         | (None, outPos) \<Rightarrow>
            (case compute_malis_gradient D affinitiesNeg groundtruth False
                    (outPos\<lparr>gradientsOut := gradNeg, lossOut := undefined\<rparr>) of
               (Some e, _) \<Rightarrow> (Some e, out)
             | (None, outNeg) \<Rightarrow>
                (None,
                 ((fst out)\<lparr>data := map2 (+) (data (gradientsOut outNeg))
                                              (data (gradientsOut outPos))\<rparr>,
                  (lossOut outPos + lossOut outNeg) / 2))))"

section \<open>Notions used in the statements and proofs\<close>

text \<open>The spatial coordinate of a flat index under a shape, axis by axis.\<close>

definition digits :: "nat list \<Rightarrow> nat \<Rightarrow> nat list" where
  "digits sh e = map (\<lambda>k. (e mod prod_list (drop k sh)) div prod_list (drop (Suc k) sh)) [0..<length sh]"

text \<open>The count stored under a label in an overlap map (zero when the label is absent).\<close>

definition ov :: "label_map \<Rightarrow> nat \<Rightarrow> nat" where
  "ov m l = (case map_find l m of None \<Rightarrow> 0 | Some c \<Rightarrow> c)"

text \<open>The number of unordered pairs among \<open>n\<close> elements, as the source computes \<open>nPairTot\<close>.\<close>

definition pairs :: "nat \<Rightarrow> nat" where
  "pairs n = n * (n - 1) div 2"

text \<open>
  What the two nested loops add to \<open>nPairCounted\<close> for two bags: the products of the
  counts over the label pairs that match the polarity.
\<close>

definition pair_count :: "bool \<Rightarrow> label_map \<Rightarrow> label_map \<Rightarrow> nat" where
  "pair_count pos mU mV =
     (\<Sum>itU\<leftarrow>mU. \<Sum>itV\<leftarrow>mV.
        if (pos \<and> fst itU = fst itV) \<or> (\<not> pos \<and> fst itU \<noteq> fst itV)
        then snd itU * snd itV else 0)"

text \<open>The bag the scan leaves for a pixel with label \<open>x\<close>.\<close>

definition unit_bag :: "nat \<Rightarrow> label_map" where
  "unit_bag x = (if x \<noteq> 0 then [(x, 1)] else [])"

text \<open>The state of the scan after the labels \<open>xs\<close> have been read.\<close>

definition scan_inv :: "nat View \<Rightarrow> nat set \<Rightarrow> nat list \<Rightarrow> scan_state \<Rightarrow> bool" where
  "scan_inv groundtruth L xs s \<longleftrightarrow>
     nodeIndex s = length xs \<and>
     length (overlaps s) = view_size groundtruth \<and>
     (\<forall>i < view_size groundtruth.
        overlaps s ! i = (if i < length xs \<and> xs ! i \<noteq> 0 then [(xs ! i, 1)] else [])) \<and>
     (\<forall>l. segmentSizes s l = (if l = 0 then 0 else count_list xs l)) \<and>
     numberOfLabeledNodes s = (\<Sum>l\<in>L. segmentSizes s l) \<and>
     nPairPos s = (\<Sum>l\<in>L. pairs (segmentSizes s l))"

text \<open>A well-formed forest over \<open>N\<close> elements: every element points at a representative.\<close>

definition ufd_ok :: "nat \<Rightarrow> Ufd \<Rightarrow> bool" where
  "ufd_ok N u \<longleftrightarrow>
     length (parents u) = N \<and>
     (\<forall>n<N. parents u ! n < N \<and> parents u ! (parents u ! n) = parents u ! n)"

text \<open>
  What the nested loops may change: only the slot of the edge in the gradient, the loss
  and the two counters, the incorrect pairs growing by no more than the counted pairs.
\<close>

definition pair_rel :: "nat list \<Rightarrow> sweep_state \<Rightarrow> sweep_state \<Rightarrow> bool" where
  "pair_rel c st st' \<longleftrightarrow>
     sets st' = sets st \<and> bags st' = bags st \<and>
     shape (gradients st') = shape (gradients st) \<and>
     length (data (gradients st')) = length (data (gradients st)) \<and>
     (\<forall>j. j \<noteq> view_index (gradients st) c \<longrightarrow>
          data (gradients st') ! j = data (gradients st) ! j) \<and>
     nPairIncorrect st' + nPairCounted st \<le> nPairIncorrect st + nPairCounted st'"

text \<open>
  The parts of an edge as one iteration of the sweep decodes them: its axis, the
  coordinate of its upper pixel, whether its lower pixel exists, and its two nodes.
\<close>

definition edge_axis :: "nat \<Rightarrow> real View \<Rightarrow> nat \<Rightarrow> nat" where
  "edge_axis D affinities e = edge_coord D affinities e ! 0"

definition edge_gtU :: "nat \<Rightarrow> real View \<Rightarrow> nat \<Rightarrow> nat list" where
  "edge_gtU D affinities e = map (\<lambda>d. edge_coord D affinities e ! d) [1..<D + 1]"

definition edge_valid :: "nat \<Rightarrow> real View \<Rightarrow> nat \<Rightarrow> bool" where
  "edge_valid D affinities e \<longleftrightarrow> edge_gtU D affinities e ! edge_axis D affinities e > 0"

definition edge_nodeU :: "nat \<Rightarrow> real View \<Rightarrow> nat View \<Rightarrow> nat \<Rightarrow> nat" where
  "edge_nodeU D affinities groundtruth e = node_of D groundtruth (edge_gtU D affinities e)"

definition edge_nodeV :: "nat \<Rightarrow> real View \<Rightarrow> nat View \<Rightarrow> nat \<Rightarrow> nat" where
  "edge_nodeV D affinities groundtruth e =
     node_of D groundtruth
       ((edge_gtU D affinities e)[edge_axis D affinities e :=
          edge_gtU D affinities e ! edge_axis D affinities e - 1])"

text \<open>
  The invariant of the sweep over \<open>N\<close> pixels whose labels lie in \<open>L\<close>, with segment
  sizes \<open>seg\<close>: the forest is well formed, bags have distinct keys, the bag of a
  non-representative is empty, the bags of each label add up to its segment size, and
  \<open>nPairCounted\<close> is the number of pairs of the polarity that lie inside one bag.
\<close>

definition sweep_inv :: "nat \<Rightarrow> nat set \<Rightarrow> (nat \<Rightarrow> nat) \<Rightarrow> bool \<Rightarrow> sweep_state \<Rightarrow> bool" where
  "sweep_inv N L seg pos st \<longleftrightarrow>
     ufd_ok N (sets st) \<and> length (bags st) = N \<and>
     (\<forall>r<N. distinct (map fst (bags st ! r)) \<and> fst ` set (bags st ! r) \<subseteq> L) \<and>
     (\<forall>r<N. ufd_find (sets st) r \<noteq> r \<longrightarrow> bags st ! r = []) \<and>
     (\<forall>l. (\<Sum>m\<leftarrow>bags st. ov m l) = seg l) \<and>
     (if pos then nPairCounted st = (\<Sum>m\<leftarrow>bags st. \<Sum>l\<in>L. pairs (ov m l))
      else nPairCounted st + (\<Sum>m\<leftarrow>bags st. \<Sum>l\<in>L. pairs (ov m l))
             = (\<Sum>m\<leftarrow>bags st. pairs (\<Sum>l\<in>L. ov m l))) \<and>
     nPairIncorrect st \<le> nPairCounted st"

text \<open>
  An edge (given by the coordinate of its affinity) whose lower pixel exists and whose
  two pixels carry the same non-zero label: the case in which the implied ground-truth
  affinity is one.
\<close>

definition same_segment :: "nat \<Rightarrow> nat View \<Rightarrow> nat list \<Rightarrow> bool" where
  "same_segment D groundtruth affCoord \<longleftrightarrow>
     (let axis = affCoord ! 0;
          gtCoordU = map (\<lambda>d. affCoord ! d) [1..<D + 1];
          gtCoordV = gtCoordU[axis := gtCoordU ! axis - 1];
          labelU = view_at groundtruth gtCoordU;
          labelV = view_at groundtruth gtCoordV
      in gtCoordU ! axis > 0 \<and> labelU = labelV \<and> labelU \<noteq> 0 \<and> labelV \<noteq> 0)"

section \<open>Lemmas\<close>

subsection \<open>Coordinates and flat indices\<close>

lemma upt_Suc_shift: "[0..<Suc n] = 0 # map Suc [0..<n]"
  by (simp add: upt_conv_Cons map_Suc_upt del: upt_Suc)

lemma mod_div_mult_split:
  fixes e :: nat
  shows "(e mod (s * p)) div p * p + e mod p = e mod (s * p)"
  by (metis ab_semigroup_mult_class.mult_ac(1) div_mod_decomp mod_div_mult_eq mod_mult_self1)

lemma digits_sum:
  "(\<Sum>d\<leftarrow>[0..<length sh]. ((e::nat) mod prod_list (drop d sh)) div prod_list (drop (Suc d) sh)
       * prod_list (drop (Suc d) sh)) = e mod prod_list sh"
proof (induction sh)
  case Nil
  show ?case by simp
next
  case (Cons s r)
  show ?case
    using Cons.IH
    by (simp add: upt_Suc_shift comp_def mod_div_mult_split del: upt_Suc)
qed

lemma coord_index_Cons:
  "(\<Sum>d\<leftarrow>[0..<length (n # ns)]. (i # c) ! d * prod_list (drop (Suc d) (n # ns)))
     = i * prod_list ns + (\<Sum>d\<leftarrow>[0..<length ns]. c ! d * prod_list (drop (Suc d) ns))"
  by (simp add: upt_Suc_shift comp_def del: upt_Suc)

lemma concat_blocks:
  "concat (map (\<lambda>i. map (\<lambda>j. i * P + j) [0..<P]) [0..<n]) = [0..<n * P]"
proof (induction n)
  case 0
  show ?case by simp
next
  case (Suc n)
  have fn: "(\<lambda>j. n * P + j) = (\<lambda>j. j + n * P)"
    by (rule ext) simp
  have blk: "map (\<lambda>j. n * P + j) [0..<P] = [n * P..<P + n * P]"
    unfolding fn by (rule map_add_upt)
  have "Suc n * P = n * P + P" by simp
  then have split: "[0..<Suc n * P] = [0..<n * P] @ [n * P..<n * P + P]"
    by (simp only: upt_add_eq_append [OF le0])
  have "concat (map (\<lambda>i. map (\<lambda>j. i * P + j) [0..<P]) [0..<Suc n])
      = concat (map (\<lambda>i. map (\<lambda>j. i * P + j) [0..<P]) [0..<n]) @ map (\<lambda>j. n * P + j) [0..<P]"
    by simp
  also have "\<dots> = [0..<n * P] @ [n * P..<P + n * P]"
    by (simp only: Suc.IH blk)
  also have "\<dots> = [0..<Suc n * P]"
    by (simp only: split add.commute [of P])
  finally show ?case .
qed

lemma index_forEachCoordinate:
  "map (\<lambda>c. \<Sum>d\<leftarrow>[0..<length sh]. c ! d * prod_list (drop (Suc d) sh)) (forEachCoordinate sh)
     = [0..<prod_list sh]"
proof (induction sh)
  case Nil
  show ?case by simp
next
  case (Cons n ns)
  let ?ix = "\<lambda>sh c. \<Sum>d\<leftarrow>[0..<length sh]. c ! d * prod_list (drop (Suc d) sh)"
  have "map (?ix (n # ns)) (forEachCoordinate (n # ns))
      = concat (map (\<lambda>i. map (\<lambda>c. i * prod_list ns + ?ix ns c) (forEachCoordinate ns)) [0..<n])"
    by (simp only: forEachCoordinate.simps map_concat map_map comp_def coord_index_Cons)
  also have "\<dots> = concat (map (\<lambda>i. map (\<lambda>j. i * prod_list ns + j)
                      (map (?ix ns) (forEachCoordinate ns))) [0..<n])"
    by (simp add: comp_def)
  also have "\<dots> = [0..<n * prod_list ns]"
    by (simp only: Cons.IH concat_blocks)
  finally show ?case by simp
qed

lemma forEachCoordinate_length:
  "c \<in> set (forEachCoordinate sh) \<Longrightarrow> length c = length sh"
  by (induction sh arbitrary: c) auto

lemma map_view_index:
  "map (view_index v) (forEachCoordinate (shape v)) = [0..<view_size v]"
  using index_forEachCoordinate [of "shape v"]
  by (simp add: view_index_def strides_def view_size_def cong: map_cong)

lemma map_view_at:
  assumes "length (data v) = view_size v"
  shows "map (view_at v) (forEachCoordinate (shape v)) = data v"
proof -
  have "map (view_at v) (forEachCoordinate (shape v))
      = map ((!) (data v)) (map (view_index v) (forEachCoordinate (shape v)))"
    by (simp add: view_at_def comp_def)
  also have "\<dots> = map ((!) (data v)) [0..<length (data v)]"
    by (simp only: map_view_index assms)
  finally show ?thesis by (simp add: map_nth)
qed

lemma upt_1_shift: "[1..<D + 1] = map Suc [0..<D]"
  by (simp add: map_Suc_upt)

lemma length_digits [simp]: "length (digits sh e) = length sh"
  by (simp add: digits_def)

lemma nth_digits:
  "k < length sh \<Longrightarrow> digits sh e ! k = (e mod prod_list (drop k sh)) div prod_list (drop (Suc k) sh)"
  by (simp add: digits_def)

lemma edge_coord_eq:
  assumes "shape affinities = D # gsh" and "length gsh = D"
  shows "edge_coord D affinities e = (e div prod_list gsh) # digits gsh e"
  unfolding edge_coord_def upt_1_shift
  using assms by (simp add: digits_def strides_def comp_def del: upt_Suc map_Suc_upt)

lemma gtCoordU_eq:
  assumes "length ds = D"
  shows "map (\<lambda>d. (a # ds) ! d) [1..<D + 1] = ds"
proof -
  have "map (\<lambda>d. (a # ds) ! d) [1..<D + 1] = map ((!) ds) [0..<length ds]"
    unfolding upt_1_shift by (simp add: comp_def assms del: upt_Suc map_Suc_upt)
  then show ?thesis by (simp add: map_nth)
qed

lemma digits_weighted_sum:
  "(\<Sum>d\<leftarrow>[0..<length sh]. digits sh e ! d * prod_list (drop (Suc d) sh)) = e mod prod_list sh"
proof -
  have "(\<Sum>d\<leftarrow>[0..<length sh]. digits sh e ! d * prod_list (drop (Suc d) sh))
      = (\<Sum>d\<leftarrow>[0..<length sh]. (e mod prod_list (drop d sh)) div prod_list (drop (Suc d) sh)
            * prod_list (drop (Suc d) sh))"
    by (rule arg_cong [where f = sum_list], rule map_cong) (simp_all add: nth_digits)
  then show ?thesis by (simp only: digits_sum)
qed

lemma node_of_digits:
  assumes "length (shape groundtruth) = D"
  shows "node_of D groundtruth (digits (shape groundtruth) e) = e mod view_size groundtruth"
  using digits_weighted_sum [of "shape groundtruth" e] assms
  by (simp add: node_of_def strides_def view_size_def)

lemma view_index_edge_coord:
  assumes "shape g = D # gsh" and "e < D * prod_list gsh"
  shows "view_index g ((e div prod_list gsh) # digits gsh e) = e"
proof -
  have "view_index g ((e div prod_list gsh) # digits gsh e)
      = (e div prod_list gsh) * prod_list gsh
        + (\<Sum>d\<leftarrow>[0..<length gsh]. digits gsh e ! d * prod_list (drop (Suc d) gsh))"
    using coord_index_Cons [where n = D and ns = gsh and i = "e div prod_list gsh" and c = "digits gsh e"]
    by (simp add: view_index_def strides_def assms(1))
  then show ?thesis by (simp add: digits_weighted_sum)
qed

lemma sum_list_upt_update:
  assumes "a < D" and "length c = D" and "c ! a > 0"
  shows "(\<Sum>d\<leftarrow>[0..<D]. c[a := c ! a - 1] ! d * (w d :: nat)) + w a = (\<Sum>d\<leftarrow>[0..<D]. c ! d * w d)"
proof -
  have l: "(\<Sum>d\<leftarrow>[0..<D]. f d) = sum f {0..<D}" for f :: "nat \<Rightarrow> nat"
    by (simp add: interv_sum_list_conv_sum_set_nat)
  have a: "a \<in> {0..<D}" using assms by simp
  have "sum (\<lambda>d. c[a := c ! a - 1] ! d * w d) ({0..<D} - {a}) = sum (\<lambda>d. c ! d * w d) ({0..<D} - {a})"
    by (rule sum.cong) auto
  moreover have "c[a := c ! a - 1] ! a * w a + w a = c ! a * w a"
    using assms by (cases "c ! a") simp_all
  ultimately show ?thesis
    unfolding l by (simp add: sum.remove [OF _ a])
qed

lemma node_of_update:
  assumes "a < D" and "length c = D" and "c ! a > 0"
  shows "node_of D groundtruth (c[a := c ! a - 1]) + strides groundtruth a = node_of D groundtruth c"
  unfolding node_of_def by (rule sum_list_upt_update [OF assms])

subsection \<open>Overlap maps\<close>

lemma ov_Nil [simp]: "ov [] l = 0"
  by (simp add: ov_def)

lemma ov_Cons [simp]: "ov ((k, c) # m) l = (if l = k then c else ov m l)"
  by (simp add: ov_def)

lemma map_find_None_iff: "map_find k m = None \<longleftrightarrow> k \<notin> fst ` set m"
  by (induction m) (auto split: if_splits)

lemma ov_notin: "k \<notin> fst ` set m \<Longrightarrow> ov m k = 0"
  by (simp add: ov_def map_find_None_iff [symmetric])

lemma map_find_Some_key: "map_find k m = Some c \<Longrightarrow> k \<in> fst ` set m"
  by (induction m) (auto split: if_splits)

lemma keys_map_insert: "fst ` set (map_insert (k, c) m) = insert k (fst ` set m)"
proof (induction m)
  case Nil
  show ?case by simp
next
  case (Cons it m)
  obtain k' c' where it: "it = (k', c')" by (cases it)
  consider "k = k'" | "k \<noteq> k'" "k < k'" | "k \<noteq> k'" "\<not> k < k'" by blast
  then show ?case
  proof cases
    case 1
    then show ?thesis by (simp add: it)
  next
    case 2
    then show ?thesis by (simp add: it)
  next
    case 3
    then show ?thesis by (simp add: it Cons.IH insert_commute)
  qed
qed

lemma distinct_map_insert:
  "distinct (map fst m) \<Longrightarrow> k \<notin> fst ` set m \<Longrightarrow> distinct (map fst (map_insert (k, c) m))"
  by (induction m) (auto simp: keys_map_insert)

lemma ov_map_insert:
  "k \<notin> fst ` set m \<Longrightarrow> ov (map_insert (k, c) m) l = (if l = k then c else ov m l)"
  by (induction m) auto

lemma map_fst_map_add [simp]: "map fst (map_add k v m) = map fst m"
  by (induction m) auto

lemma keys_map_add: "fst ` set (map_add k v m) = fst ` set m"
  using map_fst_map_add [of k v m] by (metis set_map)

lemma ov_map_add:
  "k \<in> fst ` set m \<Longrightarrow> ov (map_add k v m) l = (if l = k then ov m k + v else ov m l)"
  by (induction m) force+

lemma move_step_keys:
  "fst ` set (case map_find k mU of None \<Rightarrow> map_insert (k, c) mU | Some x \<Rightarrow> map_add k c mU)
     = insert k (fst ` set mU)"
  using keys_map_insert [of k c mU]
  by (cases "map_find k mU") (auto simp: keys_map_add dest: map_find_Some_key)

lemma move_step_distinct:
  assumes that: "distinct (map fst mU)"
  shows "distinct (map fst (case map_find k mU of None \<Rightarrow> map_insert (k, c) mU | Some x \<Rightarrow> map_add k c mU))"
proof (cases "map_find k mU")
  case None
  then have "k \<notin> fst ` set mU" by (simp add: map_find_None_iff)
  then show ?thesis using None that by (simp add: distinct_map_insert)
next
  case (Some x)
  then show ?thesis using that by simp
qed

lemma move_step_ov:
  "ov (case map_find k mU of None \<Rightarrow> map_insert (k, c) mU | Some x \<Rightarrow> map_add k c mU) l
     = ov mU l + (if l = k then c else 0)"
proof (cases "map_find k mU")
  case None
  then have "k \<notin> fst ` set mU" by (simp add: map_find_None_iff)
  then show ?thesis using None by (simp add: ov_map_insert ov_notin)
next
  case (Some x)
  then have "k \<in> fst ` set mU" by (rule map_find_Some_key)
  then show ?thesis using Some by (simp add: ov_map_add)
qed

lemma keys_move_entries:
  "fst ` set (move_entries mU mV) = fst ` set mU \<union> fst ` set mV"
proof (induction mV arbitrary: mU)
  case Nil
  show ?case by simp
next
  case (Cons it mV)
  obtain k c where it: "it = (k, c)" by (cases it)
  show ?case unfolding it move_entries.simps Cons.IH move_step_keys by auto
qed

lemma distinct_move_entries:
  "distinct (map fst mU) \<Longrightarrow> distinct (map fst (move_entries mU mV))"
proof (induction mV arbitrary: mU)
  case Nil
  then show ?case by simp
next
  case (Cons it mV)
  obtain k c where it: "it = (k, c)" by (cases it)
  show ?case unfolding it move_entries.simps
    by (rule Cons.IH, rule move_step_distinct, rule Cons.prems)
qed

lemma ov_move_entries:
  "distinct (map fst mV) \<Longrightarrow> ov (move_entries mU mV) l = ov mU l + ov mV l"
proof (induction mV arbitrary: mU)
  case Nil
  show ?case by simp
next
  case (Cons it mV)
  obtain k c where it: "it = (k, c)" by (cases it)
  from Cons.prems have d: "distinct (map fst mV)" and k: "k \<notin> fst ` set mV"
    by (auto simp: it)
  show ?case unfolding it move_entries.simps Cons.IH [OF d] move_step_ov
    using ov_notin [OF k] by simp
qed

subsection \<open>Counting pairs\<close>

lemma pairs_0 [simp]: "pairs 0 = 0" and pairs_1 [simp]: "pairs (Suc 0) = 0"
  by (simp_all add: pairs_def)

lemma pairs_Suc: "pairs (Suc n) = pairs n + n"
proof -
  have "Suc n * n = n * (n - 1) + 2 * n" by (cases n) simp_all
  then show ?thesis by (simp add: pairs_def)
qed

lemma pairs_add: "pairs (a + b) = pairs a + pairs b + a * b"
proof (induction b)
  case 0
  show ?case by simp
next
  case (Suc b)
  have "pairs (a + Suc b) = pairs (a + b) + (a + b)"
    using pairs_Suc [of "a + b"] by simp
  then show ?case using Suc by (simp add: pairs_Suc)
qed

lemma sum_list_ov:
  assumes "distinct (map fst m)" and "finite L" and "fst ` set m \<subseteq> L"
  shows "(\<Sum>it\<leftarrow>m. snd it * w (fst it)) = (\<Sum>l\<in>L. ov m l * (w l :: nat))"
  using assms
proof (induction m)
  case Nil
  show ?case by simp
next
  case (Cons it m)
  obtain k c where it: "it = (k, c)" by (cases it)
  from Cons.prems have k: "k \<in> L" and kn: "k \<notin> fst ` set m" and d: "distinct (map fst m)"
    and sub: "fst ` set m \<subseteq> L"
    by (auto simp: it)
  have rest: "(\<Sum>l\<in>L - {k}. ov ((k, c) # m) l * w l) = (\<Sum>l\<in>L - {k}. ov m l * w l)"
    by (rule sum.cong) auto
  have "(\<Sum>l\<in>L. ov ((k, c) # m) l * w l) = c * w k + (\<Sum>l\<in>L - {k}. ov m l * w l)"
    using sum.remove [OF Cons.prems(2) k, of "\<lambda>l. ov ((k, c) # m) l * w l"] rest by simp
  moreover have "(\<Sum>l\<in>L. ov m l * w l) = (\<Sum>l\<in>L - {k}. ov m l * w l)"
    using sum.remove [OF Cons.prems(2) k, of "\<lambda>l. ov m l * w l"] ov_notin [OF kn] by simp
  ultimately show ?case
    using Cons.IH [OF d Cons.prems(2) sub] by (simp add: it)
qed

lemma sum_list_snd_ov:
  assumes "distinct (map fst m)" and "finite L" and "fst ` set m \<subseteq> L"
  shows "sum_list (map snd m) = (\<Sum>l\<in>L. ov m l)"
  using sum_list_ov [OF assms, of "\<lambda>_. 1"] by simp

lemma sum_list_match:
  assumes "distinct (map fst mV)"
  shows "(\<Sum>itV\<leftarrow>mV. if k = fst itV then c * snd itV else 0) = c * ov mV k"
  using assms
proof (induction mV)
  case Nil
  show ?case by simp
next
  case (Cons it mV)
  obtain k' c' where it: "it = (k', c')" by (cases it)
  show ?case
  proof (cases "k = k'")
    case True
    with Cons.prems have "k \<notin> fst ` set mV" by (auto simp: it)
    then have "(\<Sum>itV\<leftarrow>mV. if k = fst itV then c * snd itV else 0) = 0"
      by (auto intro!: sum_list_0 simp: image_iff)
    then show ?thesis using True by (simp add: it)
  next
    case False
    then show ?thesis using Cons by (simp add: it)
  qed
qed

lemma pair_count_pos:
  assumes "distinct (map fst mU)" and "distinct (map fst mV)" and "finite L"
    and "fst ` set mU \<subseteq> L"
  shows "pair_count True mU mV = (\<Sum>l\<in>L. ov mU l * ov mV l)"
proof -
  have "pair_count True mU mV = (\<Sum>itU\<leftarrow>mU. snd itU * ov mV (fst itU))"
    unfolding pair_count_def
    by (rule arg_cong [where f = sum_list], rule map_cong)
       (simp_all add: sum_list_match [OF assms(2)])
  then show ?thesis
    by (simp add: sum_list_ov [OF assms(1,3,4)])
qed

lemma pair_count_total:
  "pair_count True mU mV + pair_count False mU mV = sum_list (map snd mU) * sum_list (map snd mV)"
proof -
  have inner: "(\<Sum>itV\<leftarrow>mV. if fst itU = fst itV then snd itU * snd itV else 0)
      + (\<Sum>itV\<leftarrow>mV. if fst itU \<noteq> fst itV then snd itU * snd itV else 0)
      = snd itU * sum_list (map snd mV)" for itU :: "nat \<times> nat"
    by (induction mV) (auto simp: algebra_simps)
  show ?thesis
    unfolding pair_count_def
    by (induction mU) (simp_all add: inner algebra_simps)
qed

subsection \<open>The scan of the ground truth\<close>

lemma sum_fun_upd_Suc:
  assumes "finite L" and "x \<in> L"
  shows "(\<Sum>l\<in>L. (f(x := f x + 1)) l) = (\<Sum>l\<in>L. f l) + (1::nat)"
proof -
  have "(\<Sum>l\<in>L - {x}. (f(x := f x + 1)) l) = (\<Sum>l\<in>L - {x}. f l)"
    by (rule sum.cong) auto
  then show ?thesis
    using sum.remove [OF assms, of "f(x := f x + 1)"] sum.remove [OF assms, of f] by simp
qed

lemma sum_pairs_fun_upd_Suc:
  assumes "finite L" and "x \<in> L"
  shows "(\<Sum>l\<in>L. pairs ((f(x := f x + 1)) l)) = (\<Sum>l\<in>L. pairs (f l)) + f x"
proof -
  have "(\<Sum>l\<in>L - {x}. pairs ((f(x := f x + 1)) l)) = (\<Sum>l\<in>L - {x}. pairs (f l))"
    by (rule sum.cong) auto
  then show ?thesis
    using sum.remove [OF assms, of "\<lambda>l. pairs ((f(x := f x + 1)) l)"]
      sum.remove [OF assms, of "\<lambda>l. pairs (f l)"] pairs_Suc [of "f x"]
    by simp
qed

lemma scan_inv_init:
  "scan_inv groundtruth L []
     \<lparr>overlaps = replicate (view_size groundtruth) [], segmentSizes = (\<lambda>_. 0),
      numberOfLabeledNodes = 0, nPairPos = 0, nodeIndex = 0\<rparr>"
  by (simp add: scan_inv_def)

lemma scan_inv_step:
  assumes inv: "scan_inv groundtruth L xs s"
    and fin: "finite L" and x: "view_at groundtruth c \<in> L"
    and len: "length xs < view_size groundtruth"
  shows "scan_inv groundtruth L (xs @ [view_at groundtruth c]) (scan_step groundtruth s c)"
proof (cases "view_at groundtruth c = 0")
  case True
  then have "scan_step groundtruth s c = s\<lparr>nodeIndex := nodeIndex s + 1\<rparr>"
    by (simp add: scan_step_def)
  then show ?thesis
    using inv True by (auto simp: scan_inv_def nth_append)
next
  case False
  let ?x = "view_at groundtruth c"
  have step: "scan_step groundtruth s c =
      s\<lparr>overlaps := (overlaps s)[nodeIndex s := map_insert (?x, 1) (overlaps s ! nodeIndex s)],
        segmentSizes := (segmentSizes s)(?x := segmentSizes s ?x + 1),
        numberOfLabeledNodes := numberOfLabeledNodes s + 1,
        nPairPos := nPairPos s + segmentSizes s ?x,
        nodeIndex := nodeIndex s + 1\<rparr>"
    using False by (simp add: scan_step_def Let_def)
  from inv have ni: "nodeIndex s = length xs"
    and lo: "length (overlaps s) = view_size groundtruth"
    and ov0: "\<forall>i < view_size groundtruth.
        overlaps s ! i = (if i < length xs \<and> xs ! i \<noteq> 0 then [(xs ! i, 1)] else [])"
    and seg0: "\<forall>l. segmentSizes s l = (if l = 0 then 0 else count_list xs l)"
    and nl0: "numberOfLabeledNodes s = (\<Sum>l\<in>L. segmentSizes s l)"
    and np0: "nPairPos s = (\<Sum>l\<in>L. pairs (segmentSizes s l))"
    by (simp_all add: scan_inv_def)
  from ov0 len have cur: "overlaps s ! nodeIndex s = []"
    by (simp add: ni)
  have ov1: "\<forall>i < view_size groundtruth.
      (overlaps s)[nodeIndex s := map_insert (?x, 1) (overlaps s ! nodeIndex s)] ! i
        = (if i < length (xs @ [?x]) \<and> (xs @ [?x]) ! i \<noteq> 0 then [((xs @ [?x]) ! i, 1)] else [])"
    using ov0 len False lo by (auto simp: cur ni nth_list_update nth_append)
  have seg1: "\<forall>l. ((segmentSizes s)(?x := segmentSizes s ?x + 1)) l
      = (if l = 0 then 0 else count_list (xs @ [?x]) l)"
    using seg0 False by auto
  have nl1: "numberOfLabeledNodes s + 1 = (\<Sum>l\<in>L. ((segmentSizes s)(?x := segmentSizes s ?x + 1)) l)"
    by (simp only: nl0 sum_fun_upd_Suc [OF fin x])
  have np1: "nPairPos s + segmentSizes s ?x
      = (\<Sum>l\<in>L. pairs (((segmentSizes s)(?x := segmentSizes s ?x + 1)) l))"
    by (simp only: np0 sum_pairs_fun_upd_Suc [OF fin x])
  show ?thesis
    unfolding step scan_inv_def
    apply (intro conjI)
         apply (simp add: ni)
        apply (simp add: lo)
       apply (use ov1 in simp)
      apply (use seg1 in simp)
     apply (use nl1 in simp)
    apply (use np1 in simp)
    done
qed

lemma scan_inv_foldl:
  assumes "finite L" and "view_at groundtruth ` set cs \<subseteq> L"
    and "length cs \<le> view_size groundtruth"
  shows "scan_inv groundtruth L (map (view_at groundtruth) cs)
           (foldl (scan_step groundtruth)
              \<lparr>overlaps = replicate (view_size groundtruth) [], segmentSizes = (\<lambda>_. 0),
               numberOfLabeledNodes = 0, nPairPos = 0, nodeIndex = 0\<rparr> cs)"
  using assms(2,3)
proof (induction cs rule: rev_induct)
  case Nil
  show ?case by (simp add: scan_inv_init)
next
  case (snoc c cs)
  have "scan_inv groundtruth L (map (view_at groundtruth) cs @ [view_at groundtruth c])
          (scan_step groundtruth (foldl (scan_step groundtruth)
              \<lparr>overlaps = replicate (view_size groundtruth) [], segmentSizes = (\<lambda>_. 0),
               numberOfLabeledNodes = 0, nPairPos = 0, nodeIndex = 0\<rparr> cs) c)"
    using snoc by (intro scan_inv_step assms(1)) auto
  then show ?case by simp
qed

lemma scan_groundtruth_inv:
  assumes "length (data groundtruth) = view_size groundtruth"
    and "finite L" and "set (data groundtruth) \<subseteq> L"
  shows "scan_inv groundtruth L (data groundtruth) (scan_groundtruth groundtruth)"
proof -
  have m: "map (view_at groundtruth) (forEachCoordinate (shape groundtruth)) = data groundtruth"
    by (rule map_view_at [OF assms(1)])
  have l: "length (forEachCoordinate (shape groundtruth)) = view_size groundtruth"
    using arg_cong [OF map_view_index [of groundtruth], of length] by simp
  have s: "view_at groundtruth ` set (forEachCoordinate (shape groundtruth)) \<subseteq> L"
    using assms(3) arg_cong [OF m, of set] by simp
  show ?thesis
    using scan_inv_foldl [OF assms(2) s] l unfolding scan_groundtruth_def m by simp
qed

subsection \<open>The forest and the nested loops\<close>

lemma view_index_shape: "shape v = shape w \<Longrightarrow> view_index v c = view_index w c"
  by (simp add: view_index_def strides_def)

lemma ufd_init_ok: "ufd_ok N (ufd_init N)"
  by (simp add: ufd_ok_def ufd_init_def)

lemma ufd_find_init: "n < N \<Longrightarrow> ufd_find (ufd_init N) n = n"
  by (simp add: ufd_find_def ufd_init_def)

lemma ufd_merge_parents:
  assumes "ufd_find u a = a" and "ufd_find u b = b" and "a \<noteq> b"
  shows "parents (ufd_merge u a b) = map (\<lambda>p. if p = a then b else p) (parents u) \<or>
         parents (ufd_merge u a b) = map (\<lambda>p. if p = b then a else p) (parents u)"
  using assms by (simp add: ufd_merge_def ufd_link_def Let_def)

lemma ufd_ok_link:
  assumes "ufd_ok N u" and "keep < N" and "parents u ! keep = keep" and "gone \<noteq> keep"
  shows "ufd_ok N (u\<lparr>parents := map (\<lambda>p. if p = gone then keep else p) (parents u)\<rparr>)"
  using assms by (auto simp: ufd_ok_def)

lemma pair_rel_refl: "pair_rel c st st"
  by (simp add: pair_rel_def)

lemma pair_rel_trans:
  assumes "pair_rel c st1 st2" and "pair_rel c st2 st3"
  shows "pair_rel c st1 st3"
proof -
  have "view_index (gradients st2) c = view_index (gradients st1) c"
    using assms(1) by (intro view_index_shape) (simp add: pair_rel_def)
  then show ?thesis
    using assms by (auto simp: pair_rel_def)
qed

lemma pair_step_rel: "pair_rel c st (pair_step pos affinities c itU st itV)"
  by (simp add: pair_step_def pair_rel_def Let_def view_set_def)

lemma pair_step_counted:
  "nPairCounted (pair_step pos affinities c itU st itV) = nPairCounted st +
     (if (pos \<and> fst itU = fst itV) \<or> (\<not> pos \<and> fst itU \<noteq> fst itV)
      then snd itU * snd itV else 0)"
  by (simp add: pair_step_def Let_def)

lemma inner_loop_props:
  "pair_rel c st (foldl (pair_step pos affinities c itU) st mV) \<and>
   nPairCounted (foldl (pair_step pos affinities c itU) st mV) = nPairCounted st +
     (\<Sum>itV\<leftarrow>mV. if (pos \<and> fst itU = fst itV) \<or> (\<not> pos \<and> fst itU \<noteq> fst itV)
        then snd itU * snd itV else 0)"
proof (induction mV arbitrary: st)
  case Nil
  show ?case by (simp add: pair_rel_refl)
next
  case (Cons itV mV)
  have r: "pair_rel c st (pair_step pos affinities c itU st itV)"
    by (rule pair_step_rel)
  show ?case
    using Cons [of "pair_step pos affinities c itU st itV"] pair_rel_trans [OF r]
    by (simp add: pair_step_counted)
qed

lemma pair_loops_props:
  "pair_rel c st (pair_loops pos affinities c mU mV st) \<and>
   nPairCounted (pair_loops pos affinities c mU mV st) = nPairCounted st + pair_count pos mU mV"
  unfolding pair_loops_def pair_count_def
proof (induction mU arbitrary: st)
  case Nil
  show ?case by (simp add: pair_rel_refl)
next
  case (Cons itU mU)
  let ?st1 = "foldl (pair_step pos affinities c itU) st mV"
  have r: "pair_rel c st ?st1"
    using inner_loop_props [of c st pos affinities itU mV] by simp
  show ?case
    using Cons [of ?st1] pair_rel_trans [OF r] inner_loop_props [of c st pos affinities itU mV]
    by simp
qed

subsection \<open>One iteration of the sweep\<close>

lemma edge_step_skip:
  assumes "\<not> edge_valid D affinities e \<or>
           ufd_find (sets st) (edge_nodeU D affinities groundtruth e)
             = ufd_find (sets st) (edge_nodeV D affinities groundtruth e)"
  shows "edge_step D affinities groundtruth pos n st e = st"
  using assms
  by (auto simp: edge_step_def Let_def edge_valid_def edge_gtU_def edge_axis_def
      edge_nodeU_def edge_nodeV_def)

lemma edge_step_merge:
  fixes D affinities groundtruth e st pos n
  defines "setU \<equiv> ufd_find (sets st) (edge_nodeU D affinities groundtruth e)"
    and "setV \<equiv> ufd_find (sets st) (edge_nodeV D affinities groundtruth e)"
    and "st' \<equiv> edge_step D affinities groundtruth pos n st e"
    and "c \<equiv> edge_coord D affinities e"
  assumes valid: "edge_valid D affinities e" and ne: "setU \<noteq> setV"
    and ok: "ufd_ok N (sets st)" and lt: "setU < N" "setV < N"
    and roots: "ufd_find (sets st) setU = setU" "ufd_find (sets st) setV = setV"
  shows "\<exists>keep gone. ((keep = setU \<and> gone = setV) \<or> (keep = setV \<and> gone = setU)) \<and>
     parents (sets st') = map (\<lambda>p. if p = gone then keep else p) (parents (sets st)) \<and>
     bags st' = (bags st)[keep := move_entries (bags st ! keep) (bags st ! gone), gone := []] \<and>
     nPairCounted st' = nPairCounted st + pair_count pos (bags st ! setU) (bags st ! setV) \<and>
     nPairIncorrect st' + nPairCounted st \<le> nPairIncorrect st + nPairCounted st' \<and>
     shape (gradients st') = shape (gradients st) \<and>
     length (data (gradients st')) = length (data (gradients st)) \<and>
     (\<forall>j. j \<noteq> view_index (gradients st) c \<longrightarrow>
          data (gradients st') ! j = data (gradients st) ! j)"
proof -
  define st1 where "st1 = pair_loops pos affinities c (bags st ! setU) (bags st ! setV) st"
  define merged where "merged = ufd_merge (sets st) setU setV"
  define st2 where "st2 = st1\<lparr>gradients := view_set (gradients st1) c
                                (view_at (gradients st1) c / real n)\<rparr>"
  have rel: "pair_rel c st st1"
    and cnt: "nPairCounted st1 = nPairCounted st + pair_count pos (bags st ! setU) (bags st ! setV)"
    using pair_loops_props [of c st pos affinities "bags st ! setU" "bags st ! setV"]
    by (simp_all add: st1_def)
  have ix: "view_index (gradients st1) c = view_index (gradients st) c"
    using rel by (intro view_index_shape) (simp add: pair_rel_def)
  have step: "st' = (let (keep, gone) = (if ufd_find merged setU = setV then (setV, setU)
                                          else (setU, setV))
                     in st2\<lparr>sets := merged,
                            bags := (bags st2)[keep := move_entries (bags st2 ! keep) (bags st2 ! gone),
                                               gone := []]\<rparr>)"
    using valid ne
    unfolding st'_def edge_step_def st2_def st1_def merged_def setU_def setV_def c_def
      edge_valid_def edge_gtU_def edge_axis_def edge_nodeU_def edge_nodeV_def Let_def
    by simp
  have b2: "bags st2 = bags st" and c2: "nPairCounted st2 = nPairCounted st1"
    and i2: "nPairIncorrect st2 = nPairIncorrect st1"
    and sh2: "shape (gradients st2) = shape (gradients st)"
    and len2: "length (data (gradients st2)) = length (data (gradients st))"
    and fr2: "\<forall>j. j \<noteq> view_index (gradients st) c \<longrightarrow>
          data (gradients st2) ! j = data (gradients st) ! j"
    using rel ix by (simp_all add: st2_def pair_rel_def view_set_def)
  have inc: "nPairIncorrect st1 + nPairCounted st \<le> nPairIncorrect st + nPairCounted st1"
    using rel by (simp add: pair_rel_def)
  have lp: "setU < length (parents (sets st))" "setV < length (parents (sets st))"
    using ok lt by (simp_all add: ufd_ok_def)
  have pU: "parents (sets st) ! setU = setU" and pV: "parents (sets st) ! setV = setV"
    using roots by (simp_all add: ufd_find_def)
  from ufd_merge_parents [OF roots ne]
  consider (a) "parents merged = map (\<lambda>p. if p = setU then setV else p) (parents (sets st))"
    | (b) "parents merged = map (\<lambda>p. if p = setV then setU else p) (parents (sets st))"
    unfolding merged_def by blast
  then show ?thesis
  proof cases
    case a
    then have "ufd_find merged setU = setV"
      using lp pU by (simp add: ufd_find_def)
    then have "st' = st2\<lparr>sets := merged,
        bags := (bags st2)[setV := move_entries (bags st2 ! setV) (bags st2 ! setU), setU := []]\<rparr>"
      using step by simp
    then show ?thesis
      using a b2 c2 i2 sh2 len2 fr2 cnt inc
      by (intro exI [of _ setV] exI [of _ setU]) simp
  next
    case b
    then have "ufd_find merged setU \<noteq> setV"
      using lp pU ne by (simp add: ufd_find_def)
    then have "st' = st2\<lparr>sets := merged,
        bags := (bags st2)[setU := move_entries (bags st2 ! setU) (bags st2 ! setV), setV := []]\<rparr>"
      using step by simp
    then show ?thesis
      using b b2 c2 i2 sh2 len2 fr2 cnt inc
      by (intro exI [of _ setU] exI [of _ setV]) simp
  qed
qed

lemma sum_list_map_update:
  "i < length xs \<Longrightarrow> (\<Sum>m\<leftarrow>xs[i := a]. F m) + F (xs ! i) = (\<Sum>m\<leftarrow>xs. F m) + (F a :: nat)"
proof (induction xs arbitrary: i)
  case Nil
  then show ?case by simp
next
  case (Cons x xs)
  then show ?case by (cases i) (simp_all add: add.assoc [symmetric])
qed

lemma sum_list_map_update2:
  assumes "i < length xs" and "j < length xs" and "i \<noteq> j"
  shows "(\<Sum>m\<leftarrow>xs[i := a, j := b]. F m) + F (xs ! i) + F (xs ! j)
           = (\<Sum>m\<leftarrow>xs. F m) + F a + (F b :: nat)"
proof -
  have "(\<Sum>m\<leftarrow>xs[i := a, j := b]. F m) + F (xs[i := a] ! j) = (\<Sum>m\<leftarrow>xs[i := a]. F m) + F b"
    using assms by (intro sum_list_map_update) simp
  moreover have "xs[i := a] ! j = xs ! j"
    using assms by simp
  moreover have "(\<Sum>m\<leftarrow>xs[i := a]. F m) + F (xs ! i) = (\<Sum>m\<leftarrow>xs. F m) + F a"
    using assms by (intro sum_list_map_update)
  ultimately show ?thesis by simp
qed

lemma sum_list_single:
  assumes "r0 < length xs" and "\<forall>r<length xs. r \<noteq> r0 \<longrightarrow> F (xs ! r) = (0::nat)"
  shows "(\<Sum>m\<leftarrow>xs. F m) = F (xs ! r0)"
proof -
  have "(\<Sum>m\<leftarrow>xs. F m) = (\<Sum>i = 0..<length xs. F (xs ! i))"
    using sum_list_sum_nth [of "map F xs"] by simp
  also have "\<dots> = (\<Sum>i \<in> {0..<length xs}. if i = r0 then F (xs ! r0) else 0)"
    using assms(2) by (intro sum.cong) auto
  also have "\<dots> = F (xs ! r0)"
    using assms(1) by simp
  finally show ?thesis .
qed

subsection \<open>The invariant of the sweep\<close>

lemma ufd_ok_parents_cong: "parents u = parents u' \<Longrightarrow> ufd_ok N u = ufd_ok N u'"
  by (simp add: ufd_ok_def)

lemma merge_bags_sums:
  fixes bs :: "label_map list"
  assumes k: "keep < length bs" and g: "gone < length bs" and kg: "keep \<noteq> gone"
    and dG: "distinct (map fst (bs ! gone))" and fin: "finite L"
  defines "bs' \<equiv> bs[keep := move_entries (bs ! keep) (bs ! gone), gone := []]"
  shows "(\<Sum>m\<leftarrow>bs'. ov m l) = (\<Sum>m\<leftarrow>bs. ov m l)"
    and "(\<Sum>m\<leftarrow>bs'. \<Sum>l\<in>L. pairs (ov m l))
           = (\<Sum>m\<leftarrow>bs. \<Sum>l\<in>L. pairs (ov m l)) + (\<Sum>l\<in>L. ov (bs ! keep) l * ov (bs ! gone) l)"
    and "(\<Sum>m\<leftarrow>bs'. pairs (\<Sum>l\<in>L. ov m l))
           = (\<Sum>m\<leftarrow>bs. pairs (\<Sum>l\<in>L. ov m l))
             + (\<Sum>l\<in>L. ov (bs ! keep) l) * (\<Sum>l\<in>L. ov (bs ! gone) l)"
proof -
  let ?K = "bs ! keep" and ?G = "bs ! gone"
  let ?M = "move_entries ?K ?G"
  have ovM: "ov ?M l = ov ?K l + ov ?G l" for l
    by (rule ov_move_entries [OF dG])
  have upd: "(\<Sum>m\<leftarrow>bs'. F m) + F ?K + F ?G = (\<Sum>m\<leftarrow>bs. F m) + F ?M + F []"
    for F :: "label_map \<Rightarrow> nat"
    unfolding bs'_def by (rule sum_list_map_update2 [OF k g kg])
  show "(\<Sum>m\<leftarrow>bs'. ov m l) = (\<Sum>m\<leftarrow>bs. ov m l)"
    using upd [of "\<lambda>m. ov m l"] by (simp add: ovM)
  have "(\<Sum>l\<in>L. pairs (ov ?M l))
      = (\<Sum>l\<in>L. pairs (ov ?K l)) + (\<Sum>l\<in>L. pairs (ov ?G l)) + (\<Sum>l\<in>L. ov ?K l * ov ?G l)"
    by (simp add: ovM pairs_add sum.distrib)
  then show "(\<Sum>m\<leftarrow>bs'. \<Sum>l\<in>L. pairs (ov m l))
           = (\<Sum>m\<leftarrow>bs. \<Sum>l\<in>L. pairs (ov m l)) + (\<Sum>l\<in>L. ov ?K l * ov ?G l)"
    using upd [of "\<lambda>m. \<Sum>l\<in>L. pairs (ov m l)"] by simp
  have "pairs (\<Sum>l\<in>L. ov ?M l)
      = pairs (\<Sum>l\<in>L. ov ?K l) + pairs (\<Sum>l\<in>L. ov ?G l)
        + (\<Sum>l\<in>L. ov ?K l) * (\<Sum>l\<in>L. ov ?G l)"
    by (simp add: ovM sum.distrib pairs_add)
  then show "(\<Sum>m\<leftarrow>bs'. pairs (\<Sum>l\<in>L. ov m l))
           = (\<Sum>m\<leftarrow>bs. pairs (\<Sum>l\<in>L. ov m l))
             + (\<Sum>l\<in>L. ov ?K l) * (\<Sum>l\<in>L. ov ?G l)"
    using upd [of "\<lambda>m. pairs (\<Sum>l\<in>L. ov m l)"] by simp
qed

lemma sweep_inv_step:
  assumes inv: "sweep_inv N L seg pos st" and fin: "finite L"
    and nodes: "edge_valid D affinities e \<Longrightarrow>
                  edge_nodeU D affinities groundtruth e < N \<and>
                  edge_nodeV D affinities groundtruth e < N"
  shows "sweep_inv N L seg pos (edge_step D affinities groundtruth pos n st e)"
proof (cases "\<not> edge_valid D affinities e \<or>
           ufd_find (sets st) (edge_nodeU D affinities groundtruth e)
             = ufd_find (sets st) (edge_nodeV D affinities groundtruth e)")
  case True
  then show ?thesis using inv by (simp add: edge_step_skip)
next
  case False
  define setU where "setU = ufd_find (sets st) (edge_nodeU D affinities groundtruth e)"
  define setV where "setV = ufd_find (sets st) (edge_nodeV D affinities groundtruth e)"
  define st' where "st' = edge_step D affinities groundtruth pos n st e"
  from False have valid: "edge_valid D affinities e" and ne: "setU \<noteq> setV"
    by (simp_all add: setU_def setV_def)
  from inv have ok: "ufd_ok N (sets st)" and lb: "length (bags st) = N"
    and dist: "\<forall>r<N. distinct (map fst (bags st ! r)) \<and> fst ` set (bags st ! r) \<subseteq> L"
    and empty: "\<forall>r<N. ufd_find (sets st) r \<noteq> r \<longrightarrow> bags st ! r = []"
    and cons: "\<forall>l. (\<Sum>m\<leftarrow>bags st. ov m l) = seg l"
    and cnt: "if pos then nPairCounted st = (\<Sum>m\<leftarrow>bags st. \<Sum>l\<in>L. pairs (ov m l))
      else nPairCounted st + (\<Sum>m\<leftarrow>bags st. \<Sum>l\<in>L. pairs (ov m l))
             = (\<Sum>m\<leftarrow>bags st. pairs (\<Sum>l\<in>L. ov m l))"
    and inc: "nPairIncorrect st \<le> nPairCounted st"
    by (simp_all add: sweep_inv_def)
  from nodes [OF valid] ok have lt: "setU < N" "setV < N"
    and roots: "ufd_find (sets st) setU = setU" "ufd_find (sets st) setV = setV"
    by (simp_all add: setU_def setV_def ufd_ok_def ufd_find_def)
  from edge_step_merge [OF valid ne [unfolded setU_def setV_def] ok
      lt [unfolded setU_def setV_def] roots [unfolded setU_def setV_def]]
  obtain keep gone where kg: "(keep = setU \<and> gone = setV) \<or> (keep = setV \<and> gone = setU)"
    and par: "parents (sets st') = map (\<lambda>p. if p = gone then keep else p) (parents (sets st))"
    and bg: "bags st' = (bags st)[keep := move_entries (bags st ! keep) (bags st ! gone), gone := []]"
    and cnt': "nPairCounted st' = nPairCounted st + pair_count pos (bags st ! setU) (bags st ! setV)"
    and inc': "nPairIncorrect st' + nPairCounted st \<le> nPairIncorrect st + nPairCounted st'"
    unfolding st'_def setU_def setV_def by blast
  from kg ne lt roots have k: "keep < N" and g: "gone < N" and kne: "keep \<noteq> gone"
    and rk: "parents (sets st) ! keep = keep" and rg: "parents (sets st) ! gone = gone"
    by (auto simp: ufd_find_def)
  let ?K = "bags st ! keep" and ?G = "bags st ! gone"
  from dist k g have dK: "distinct (map fst ?K)" and dG: "distinct (map fst ?G)"
    and sK: "fst ` set ?K \<subseteq> L" and sG: "fst ` set ?G \<subseteq> L"
    by simp_all
  have ok': "ufd_ok N (sets st')"
    using ufd_ok_link [OF ok k rk, of gone] kne
      ufd_ok_parents_cong [of "sets st'"
        "(sets st)\<lparr>parents := map (\<lambda>p. if p = gone then keep else p) (parents (sets st))\<rparr>" N] par
    by simp
  have lb': "length (bags st') = N"
    by (simp add: bg lb)
  have dist': "\<forall>r<N. distinct (map fst (bags st' ! r)) \<and> fst ` set (bags st' ! r) \<subseteq> L"
  proof (intro allI impI)
    fix r assume r: "r < N"
    consider "r = gone" | "r = keep" "r \<noteq> gone" | "r \<noteq> keep" "r \<noteq> gone" by blast
    then show "distinct (map fst (bags st' ! r)) \<and> fst ` set (bags st' ! r) \<subseteq> L"
    proof cases
      case 1
      then show ?thesis using g by (simp add: bg lb)
    next
      case 2
      then have "bags st' ! r = move_entries ?K ?G"
        using k kne by (simp add: bg lb)
      then show ?thesis
        using distinct_move_entries [OF dK, of ?G] keys_move_entries [of ?K ?G] sK sG by simp
    next
      case 3
      then show ?thesis using dist r by (simp add: bg)
    qed
  qed
  have empty': "\<forall>r<N. ufd_find (sets st') r \<noteq> r \<longrightarrow> bags st' ! r = []"
  proof (intro allI impI)
    fix r assume r: "r < N" and nr: "ufd_find (sets st') r \<noteq> r"
    have lp: "length (parents (sets st)) = N"
      using ok by (simp add: ufd_ok_def)
    have f': "ufd_find (sets st') r = (if parents (sets st) ! r = gone then keep
                                        else parents (sets st) ! r)"
      using r lp by (simp add: ufd_find_def par)
    consider "r = gone" | "r = keep" | "r \<noteq> keep" "r \<noteq> gone" by blast
    then show "bags st' ! r = []"
    proof cases
      case 1
      then show ?thesis using g by (simp add: bg lb)
    next
      case 2
      then show ?thesis using nr f' rk kne by simp
    next
      case 3
      then have "ufd_find (sets st) r \<noteq> r"
        using nr f' rg by (auto simp: ufd_find_def split: if_splits)
      then show ?thesis using empty r 3 by (simp add: bg)
    qed
  qed
  have kl: "keep < length (bags st)" and gl: "gone < length (bags st)"
    using k g lb by simp_all
  note sums = merge_bags_sums [OF kl gl kne dG fin, folded bg]
  have cons': "\<forall>l. (\<Sum>m\<leftarrow>bags st'. ov m l) = seg l"
    using sums(1) cons by simp
  have xpos: "pair_count True (bags st ! setU) (bags st ! setV) = (\<Sum>l\<in>L. ov ?K l * ov ?G l)"
  proof -
    have "(\<Sum>l\<in>L. ov ?G l * ov ?K l) = (\<Sum>l\<in>L. ov ?K l * ov ?G l)"
      by (simp add: mult.commute)
    then show ?thesis
      using kg pair_count_pos [OF dK dG fin sK] pair_count_pos [OF dG dK fin sG] by auto
  qed
  have tot: "pair_count True (bags st ! setU) (bags st ! setV)
           + pair_count False (bags st ! setU) (bags st ! setV)
           = (\<Sum>l\<in>L. ov ?K l) * (\<Sum>l\<in>L. ov ?G l)"
  proof -
    have "sum_list (map snd ?K) = (\<Sum>l\<in>L. ov ?K l)" "sum_list (map snd ?G) = (\<Sum>l\<in>L. ov ?G l)"
      by (rule sum_list_snd_ov [OF dK fin sK], rule sum_list_snd_ov [OF dG fin sG])
    then show ?thesis
      using kg pair_count_total [of "bags st ! setU" "bags st ! setV"]
      by (auto simp: mult.commute)
  qed
  have cnt'': "if pos then nPairCounted st' = (\<Sum>m\<leftarrow>bags st'. \<Sum>l\<in>L. pairs (ov m l))
      else nPairCounted st' + (\<Sum>m\<leftarrow>bags st'. \<Sum>l\<in>L. pairs (ov m l))
             = (\<Sum>m\<leftarrow>bags st'. pairs (\<Sum>l\<in>L. ov m l))"
  proof (cases pos)
    case True
    then show ?thesis using cnt cnt' xpos sums(2) by simp
  next
    case False
    then have "nPairCounted st' + (\<Sum>m\<leftarrow>bags st'. \<Sum>l\<in>L. pairs (ov m l))
        = nPairCounted st + (\<Sum>m\<leftarrow>bags st. \<Sum>l\<in>L. pairs (ov m l))
          + (pair_count True (bags st ! setU) (bags st ! setV)
             + pair_count False (bags st ! setU) (bags st ! setV))"
      using cnt' xpos sums(2) by simp
    then show ?thesis using False cnt tot sums(3) by simp
  qed
  have inc'': "nPairIncorrect st' \<le> nPairCounted st'"
    using inc inc' by linarith
  show ?thesis
    unfolding st'_def [symmetric] sweep_inv_def
    using ok' lb' dist' empty' cons' cnt'' inc'' by blast
qed

subsection \<open>The edges of the grid\<close>

lemma edge_axis_eq:
  assumes "shape affinities = D # shape groundtruth" and "length (shape groundtruth) = D"
  shows "edge_axis D affinities e = e div view_size groundtruth"
  using edge_coord_eq [OF assms] by (simp add: edge_axis_def view_size_def)

lemma edge_gtU_eq:
  assumes "shape affinities = D # shape groundtruth" and "length (shape groundtruth) = D"
  shows "edge_gtU D affinities e = digits (shape groundtruth) e"
  unfolding edge_gtU_def edge_coord_eq [OF assms]
  by (rule gtCoordU_eq) (simp add: assms(2))

lemma edge_nodeU_eq:
  assumes "shape affinities = D # shape groundtruth" and "length (shape groundtruth) = D"
  shows "edge_nodeU D affinities groundtruth e = e mod view_size groundtruth"
  unfolding edge_nodeU_def edge_gtU_eq [OF assms] by (rule node_of_digits [OF assms(2)])

lemma edge_nodeV_eq:
  assumes sa: "shape affinities = D # shape groundtruth" and lg: "length (shape groundtruth) = D"
    and e: "e < D * view_size groundtruth" and valid: "edge_valid D affinities e"
  shows "edge_nodeV D affinities groundtruth e + strides groundtruth (e div view_size groundtruth)
           = e mod view_size groundtruth"
proof -
  have a: "e div view_size groundtruth < D"
    using e by (rule less_mult_imp_div_less)
  have v: "digits (shape groundtruth) e ! (e div view_size groundtruth) > 0"
    using valid by (simp add: edge_valid_def edge_gtU_eq [OF sa lg] edge_axis_eq [OF sa lg])
  have "node_of D groundtruth
          ((digits (shape groundtruth) e)[e div view_size groundtruth :=
             digits (shape groundtruth) e ! (e div view_size groundtruth) - 1])
        + strides groundtruth (e div view_size groundtruth)
      = node_of D groundtruth (digits (shape groundtruth) e)"
    by (rule node_of_update [OF a _ v]) (simp add: lg)
  then show ?thesis
    by (simp add: edge_nodeV_def edge_gtU_eq [OF sa lg] edge_axis_eq [OF sa lg]
        node_of_digits [OF lg])
qed

lemma edge_nodes_lt:
  assumes sa: "shape affinities = D # shape groundtruth" and lg: "length (shape groundtruth) = D"
    and e: "e < D * view_size groundtruth" and valid: "edge_valid D affinities e"
  shows "edge_nodeU D affinities groundtruth e < view_size groundtruth \<and>
         edge_nodeV D affinities groundtruth e < view_size groundtruth"
proof -
  have "view_size groundtruth > 0" using e by (cases "view_size groundtruth") simp_all
  then have "e mod view_size groundtruth < view_size groundtruth" by simp
  then show ?thesis
    using edge_nodeV_eq [OF assms] edge_nodeU_eq [OF sa lg, of e] by linarith
qed

lemma prod_list_drop_dvd: "prod_list (drop k xs) dvd (prod_list xs :: nat)"
proof -
  have "prod_list xs = prod_list (take k xs) * prod_list (drop k xs)"
    using prod_list.append [of "take k xs" "drop k xs"] by simp
  then show ?thesis by simp
qed

lemma digits_shift:
  "digits sh (a * prod_list sh + n) = digits sh n"
proof -
  have "(a * prod_list sh + n) mod prod_list (drop k sh) = n mod prod_list (drop k sh)" for k
  proof -
    from prod_list_drop_dvd [of k sh] obtain q where "prod_list sh = prod_list (drop k sh) * q" ..
    then have "a * prod_list sh + n = n + (a * q) * prod_list (drop k sh)"
      by (simp add: mult.commute mult.left_commute)
    then show ?thesis by (simp only: mod_mult_self1)
  qed
  then show ?thesis by (simp add: digits_def)
qed

lemma exists_edge_down:
  assumes sa: "shape affinities = D # shape groundtruth" and lg: "length (shape groundtruth) = D"
    and n: "0 < n" "n < view_size groundtruth"
  shows "\<exists>e < D * view_size groundtruth. edge_valid D affinities e \<and>
           edge_nodeU D affinities groundtruth e = n \<and>
           edge_nodeV D affinities groundtruth e < n"
proof -
  let ?N = "view_size groundtruth" and ?sh = "shape groundtruth"
  have sum: "(\<Sum>d\<leftarrow>[0..<D]. digits ?sh n ! d * prod_list (drop (Suc d) ?sh)) = n"
    using digits_weighted_sum [of ?sh n] n by (simp add: lg view_size_def)
  have "\<exists>a<D. digits ?sh n ! a > 0"
  proof (rule ccontr)
    assume "\<not> (\<exists>a<D. digits ?sh n ! a > 0)"
    then have "(\<Sum>d\<leftarrow>[0..<D]. digits ?sh n ! d * prod_list (drop (Suc d) ?sh)) = 0"
      by auto
    then show False using sum n by simp
  qed
  then obtain a where a: "a < D" and da: "digits ?sh n ! a > 0" by blast
  define e where "e = a * ?N + n"
  have "e < a * ?N + ?N" using n by (simp add: e_def)
  also have "\<dots> = Suc a * ?N" by simp
  also have "\<dots> \<le> D * ?N" using a by (intro mult_le_mono1) simp
  finally have e: "e < D * ?N" .
  have ediv: "e div ?N = a" and emod: "e mod ?N = n"
    using n by (simp_all add: e_def)
  have dig: "digits ?sh e = digits ?sh n"
    unfolding e_def view_size_def by (rule digits_shift)
  have valid: "edge_valid D affinities e"
    using da by (simp add: edge_valid_def edge_gtU_eq [OF sa lg] edge_axis_eq [OF sa lg] ediv dig)
  have nu: "edge_nodeU D affinities groundtruth e = n"
    by (simp add: edge_nodeU_eq [OF sa lg] emod)
  have "strides groundtruth a > 0"
  proof (rule ccontr)
    assume "\<not> strides groundtruth a > 0"
    then have "digits ?sh n ! a = 0"
      using a by (simp add: nth_digits lg strides_def)
    then show False using da by simp
  qed
  then have nv: "edge_nodeV D affinities groundtruth e < n"
    using edge_nodeV_eq [OF sa lg e valid] by (simp add: ediv emod)
  show ?thesis using e valid nu nv by blast
qed

subsection \<open>Connectivity\<close>

lemma edge_step_find:
  assumes ok: "ufd_ok N (sets st)"
    and nodes: "edge_valid D affinities e \<Longrightarrow>
                  edge_nodeU D affinities groundtruth e < N \<and>
                  edge_nodeV D affinities groundtruth e < N"
  shows "\<exists>f. (\<forall>k<N. ufd_find (sets (edge_step D affinities groundtruth pos n st e)) k
                        = f (ufd_find (sets st) k)) \<and>
             (edge_valid D affinities e \<longrightarrow>
                f (ufd_find (sets st) (edge_nodeU D affinities groundtruth e))
                  = f (ufd_find (sets st) (edge_nodeV D affinities groundtruth e)))"
proof (cases "\<not> edge_valid D affinities e \<or>
           ufd_find (sets st) (edge_nodeU D affinities groundtruth e)
             = ufd_find (sets st) (edge_nodeV D affinities groundtruth e)")
  case True
  define f where "f = (\<lambda>p::nat. p)"
  have "edge_step D affinities groundtruth pos n st e = st"
    using True by (rule edge_step_skip)
  then have "(\<forall>k<N. ufd_find (sets (edge_step D affinities groundtruth pos n st e)) k
                        = f (ufd_find (sets st) k)) \<and>
             (edge_valid D affinities e \<longrightarrow>
                f (ufd_find (sets st) (edge_nodeU D affinities groundtruth e))
                  = f (ufd_find (sets st) (edge_nodeV D affinities groundtruth e)))"
    using True by (auto simp: f_def)
  then show ?thesis by (rule exI [of _ f])
next
  case False
  define setU where "setU = ufd_find (sets st) (edge_nodeU D affinities groundtruth e)"
  define setV where "setV = ufd_find (sets st) (edge_nodeV D affinities groundtruth e)"
  define st' where "st' = edge_step D affinities groundtruth pos n st e"
  from False have valid: "edge_valid D affinities e" and ne: "setU \<noteq> setV"
    by (simp_all add: setU_def setV_def)
  from nodes [OF valid] ok have lt: "setU < N" "setV < N"
    and roots: "ufd_find (sets st) setU = setU" "ufd_find (sets st) setV = setV"
    by (simp_all add: setU_def setV_def ufd_ok_def ufd_find_def)
  from edge_step_merge [OF valid ne [unfolded setU_def setV_def] ok
      lt [unfolded setU_def setV_def] roots [unfolded setU_def setV_def]]
  obtain keep gone where kg: "(keep = setU \<and> gone = setV) \<or> (keep = setV \<and> gone = setU)"
    and par: "parents (sets st') = map (\<lambda>p. if p = gone then keep else p) (parents (sets st))"
    unfolding st'_def setU_def setV_def by blast
  have lp: "length (parents (sets st)) = N"
    using ok by (simp add: ufd_ok_def)
  define f where "f = (\<lambda>p. if p = gone then keep else p)"
  have "\<forall>k<N. ufd_find (sets st') k = f (ufd_find (sets st) k)"
    using lp by (simp add: ufd_find_def par f_def)
  moreover have "f setU = f setV"
    using kg by (auto simp: f_def)
  ultimately have "(\<forall>k<N. ufd_find (sets st') k = f (ufd_find (sets st) k)) \<and>
      (edge_valid D affinities e \<longrightarrow> f setU = f setV)"
    by simp
  then show ?thesis
    unfolding st'_def setU_def setV_def by (rule exI [of _ f])
qed

lemma sweep_fold_inv:
  assumes sa: "shape affinities = D # shape groundtruth" and lg: "length (shape groundtruth) = D"
    and fin: "finite L"
    and inv0: "sweep_inv (view_size groundtruth) L seg pos st0"
    and es: "\<forall>e\<in>set es. e < D * view_size groundtruth"
  shows "sweep_inv (view_size groundtruth) L seg pos
           (foldl (edge_step D affinities groundtruth pos n) st0 es) \<and>
         (\<forall>e\<in>set es. edge_valid D affinities e \<longrightarrow>
            ufd_find (sets (foldl (edge_step D affinities groundtruth pos n) st0 es))
                (edge_nodeU D affinities groundtruth e)
              = ufd_find (sets (foldl (edge_step D affinities groundtruth pos n) st0 es))
                  (edge_nodeV D affinities groundtruth e))"
  using es
proof (induction es rule: rev_induct)
  case Nil
  show ?case using inv0 by simp
next
  case (snoc e es)
  let ?N = "view_size groundtruth"
  let ?st = "foldl (edge_step D affinities groundtruth pos n) st0 es"
  let ?st' = "edge_step D affinities groundtruth pos n ?st e"
  from snoc have inv: "sweep_inv ?N L seg pos ?st"
    and linked: "\<forall>e'\<in>set es. edge_valid D affinities e' \<longrightarrow>
            ufd_find (sets ?st) (edge_nodeU D affinities groundtruth e')
              = ufd_find (sets ?st) (edge_nodeV D affinities groundtruth e')"
    and e: "e < D * ?N" and es: "\<forall>e'\<in>set es. e' < D * ?N"
    by simp_all
  have nodes: "edge_valid D affinities e' \<Longrightarrow>
      edge_nodeU D affinities groundtruth e' < ?N \<and> edge_nodeV D affinities groundtruth e' < ?N"
    if "e' < D * ?N" for e'
    using edge_nodes_lt [OF sa lg that] by simp
  have inv': "sweep_inv ?N L seg pos ?st'"
    by (rule sweep_inv_step [OF inv fin nodes [OF e]])
  from inv have ok: "ufd_ok ?N (sets ?st)" by (simp add: sweep_inv_def)
  from edge_step_find [OF ok nodes [OF e], where pos = pos and n = n]
  obtain f where f: "\<forall>k<?N. ufd_find (sets ?st') k = f (ufd_find (sets ?st) k)"
    and fe: "edge_valid D affinities e \<longrightarrow>
                f (ufd_find (sets ?st) (edge_nodeU D affinities groundtruth e))
                  = f (ufd_find (sets ?st) (edge_nodeV D affinities groundtruth e))"
    by blast
  have "edge_valid D affinities e' \<longrightarrow>
          ufd_find (sets ?st') (edge_nodeU D affinities groundtruth e')
            = ufd_find (sets ?st') (edge_nodeV D affinities groundtruth e')"
    if "e' \<in> set (es @ [e])" for e'
  proof
    assume v: "edge_valid D affinities e'"
    have lt: "e' < D * ?N" using that e es by auto
    have eq: "f (ufd_find (sets ?st) (edge_nodeU D affinities groundtruth e'))
            = f (ufd_find (sets ?st) (edge_nodeV D affinities groundtruth e'))"
      using that v fe linked by auto
    show "ufd_find (sets ?st') (edge_nodeU D affinities groundtruth e')
            = ufd_find (sets ?st') (edge_nodeV D affinities groundtruth e')"
      using nodes [OF lt v] f eq by simp
  qed
  then show ?case using inv' by simp
qed

lemma all_connected:
  assumes sa: "shape affinities = D # shape groundtruth" and lg: "length (shape groundtruth) = D"
    and linked: "\<forall>e < D * view_size groundtruth. edge_valid D affinities e \<longrightarrow>
            ufd_find u (edge_nodeU D affinities groundtruth e)
              = ufd_find u (edge_nodeV D affinities groundtruth e)"
    and k: "k < view_size groundtruth"
  shows "ufd_find u k = ufd_find u 0"
  using k
proof (induction k rule: less_induct)
  case (less k)
  show ?case
  proof (cases "k = 0")
    case True
    then show ?thesis by simp
  next
    case False
    then have "0 < k" by simp
    from exists_edge_down [OF sa lg this less.prems]
    obtain e where e: "e < D * view_size groundtruth" and v: "edge_valid D affinities e"
      and nu: "edge_nodeU D affinities groundtruth e = k"
      and nv: "edge_nodeV D affinities groundtruth e < k"
      by blast
    have "ufd_find u k = ufd_find u (edge_nodeV D affinities groundtruth e)"
      using linked e v nu by auto
    also have "\<dots> = ufd_find u 0"
      using nv less.prems by (intro less.IH) simp_all
    finally show ?thesis .
  qed
qed

subsection \<open>The initial and the final state\<close>

lemma scan_overlaps:
  assumes "scan_inv groundtruth L xs s" and "length xs = view_size groundtruth"
  shows "overlaps s = map unit_bag xs"
  using assms by (intro nth_equalityI) (simp_all add: scan_inv_def unit_bag_def)

lemma sum_ov_unit_bags:
  "(\<Sum>m\<leftarrow>map unit_bag xs. ov m l) = (if l = 0 then 0 else count_list xs l)"
  by (induction xs) (auto simp: unit_bag_def)

lemma pairs_ov_unit_bag: "pairs (ov (unit_bag x) l) = 0"
  by (simp add: unit_bag_def)

lemma pairs_total_unit_bag:
  assumes "finite L"
  shows "pairs (\<Sum>l\<in>L. ov (unit_bag x) l) = 0"
proof -
  have "(\<Sum>l\<in>L. ov (unit_bag x) l) = (\<Sum>l\<in>L. if l = x then (if x \<noteq> 0 then 1 else 0) else 0)"
    by (rule sum.cong) (auto simp: unit_bag_def)
  also have "\<dots> = (if x \<in> L then (if x \<noteq> 0 then 1 else 0) else 0)"
    using assms by simp
  finally show ?thesis by simp
qed

lemma sweep_inv_init:
  assumes wf: "length (data groundtruth) = view_size groundtruth"
    and fin: "finite L" and sub: "set (data groundtruth) \<subseteq> L"
  shows "sweep_inv (view_size groundtruth) L (segmentSizes (scan_groundtruth groundtruth)) pos
           \<lparr>sets = ufd_init (view_size groundtruth), bags = overlaps (scan_groundtruth groundtruth),
            loss = 0, nPairIncorrect = 0, gradients = g, nPairCounted = 0\<rparr>"
proof -
  let ?s = "scan_groundtruth groundtruth" and ?N = "view_size groundtruth"
  have sc: "scan_inv groundtruth L (data groundtruth) ?s"
    by (rule scan_groundtruth_inv [OF wf fin sub])
  have bs: "overlaps ?s = map unit_bag (data groundtruth)"
    by (rule scan_overlaps [OF sc wf])
  have seg: "\<forall>l. segmentSizes ?s l = (if l = 0 then 0 else count_list (data groundtruth) l)"
    using sc by (simp add: scan_inv_def)
  have d: "\<forall>r<?N. distinct (map fst (overlaps ?s ! r)) \<and> fst ` set (overlaps ?s ! r) \<subseteq> L"
    using sub wf by (auto simp: bs unit_bag_def)
  have e: "\<forall>r<?N. ufd_find (ufd_init ?N) r \<noteq> r \<longrightarrow> overlaps ?s ! r = []"
    by (simp add: ufd_find_init)
  have c: "\<forall>l. (\<Sum>m\<leftarrow>overlaps ?s. ov m l) = segmentSizes ?s l"
    by (simp only: bs sum_ov_unit_bags) (simp add: seg)
  have p: "(\<Sum>m\<leftarrow>overlaps ?s. \<Sum>l\<in>L. pairs (ov m l)) = 0"
    by (simp add: bs pairs_ov_unit_bag comp_def)
  have t: "(\<Sum>m\<leftarrow>overlaps ?s. pairs (\<Sum>l\<in>L. ov m l)) = 0"
    by (simp add: bs pairs_total_unit_bag [OF fin] comp_def)
  have lb: "length (overlaps ?s) = ?N"
    using sc by (simp add: scan_inv_def)
  show ?thesis
    unfolding sweep_inv_def sweep_state.select_convs p t
    using ufd_init_ok [of ?N] d e c lb by simp
qed

lemma sorted_edges_set: "set (sorted_edges affinities) = {0..<view_size affinities}"
  by (simp add: sorted_edges_def)

lemma view_size_Cons: "shape v = D # sh \<Longrightarrow> view_size v = D * prod_list sh"
  by (simp add: view_size_def)

lemma sweep_final:
  assumes sa: "shape affinities = D # shape groundtruth" and lg: "length (shape groundtruth) = D"
    and wf: "length (data groundtruth) = view_size groundtruth"
    and es: "set es = {0..<D * view_size groundtruth}"
    and N: "0 < view_size groundtruth"
  shows "nPairCounted (sweep D affinities groundtruth pos g es)
           = normalization pos (scan_groundtruth groundtruth)"
    and "nPairIncorrect (sweep D affinities groundtruth pos g es)
           \<le> nPairCounted (sweep D affinities groundtruth pos g es)"
proof -
  let ?s = "scan_groundtruth groundtruth" and ?N = "view_size groundtruth"
  let ?L = "set (data groundtruth)"
  let ?st = "sweep D affinities groundtruth pos g es"
  have fin: "finite ?L" by simp
  have sc: "scan_inv groundtruth ?L (data groundtruth) ?s"
    by (rule scan_groundtruth_inv [OF wf fin]) simp
  have inv0: "sweep_inv ?N ?L (segmentSizes ?s) pos
           \<lparr>sets = ufd_init ?N, bags = overlaps ?s,
            loss = 0, nPairIncorrect = 0, gradients = g, nPairCounted = 0\<rparr>"
    by (rule sweep_inv_init [OF wf fin]) simp
  have lt: "\<forall>e\<in>set es. e < D * ?N" using es by simp
  from sweep_fold_inv [OF sa lg fin inv0 lt, of "normalization pos ?s"]
  have inv: "sweep_inv ?N ?L (segmentSizes ?s) pos ?st"
    and linked: "\<forall>e\<in>set es. edge_valid D affinities e \<longrightarrow>
            ufd_find (sets ?st) (edge_nodeU D affinities groundtruth e)
              = ufd_find (sets ?st) (edge_nodeV D affinities groundtruth e)"
    unfolding sweep_def Let_def by simp_all
  show "nPairIncorrect ?st \<le> nPairCounted ?st"
    using inv by (simp add: sweep_inv_def)
  define r0 where "r0 = ufd_find (sets ?st) 0"
  have same: "ufd_find (sets ?st) k = r0" if "k < ?N" for k
    unfolding r0_def
    by (rule all_connected [OF sa lg _ that]) (use linked es in simp)
  from inv have ok: "ufd_ok ?N (sets ?st)" and lb: "length (bags ?st) = ?N"
    and empty: "\<forall>r<?N. ufd_find (sets ?st) r \<noteq> r \<longrightarrow> bags ?st ! r = []"
    and cons: "\<forall>l. (\<Sum>m\<leftarrow>bags ?st. ov m l) = segmentSizes ?s l"
    and cnt: "if pos then nPairCounted ?st = (\<Sum>m\<leftarrow>bags ?st. \<Sum>l\<in>?L. pairs (ov m l))
      else nPairCounted ?st + (\<Sum>m\<leftarrow>bags ?st. \<Sum>l\<in>?L. pairs (ov m l))
             = (\<Sum>m\<leftarrow>bags ?st. pairs (\<Sum>l\<in>?L. ov m l))"
    unfolding sweep_inv_def by blast+
  have r0: "r0 < length (bags ?st)"
    using ok N by (simp add: r0_def ufd_ok_def ufd_find_def lb)
  have others: "\<forall>r<length (bags ?st). r \<noteq> r0 \<longrightarrow> bags ?st ! r = []"
    using empty same lb by auto
  have single: "(\<Sum>m\<leftarrow>bags ?st. F m) = F (bags ?st ! r0)" if "F [] = 0"
    for F :: "label_map \<Rightarrow> nat"
    by (rule sum_list_single [OF r0]) (use others that in simp)
  have ovr: "ov (bags ?st ! r0) l = segmentSizes ?s l" for l
    using cons single [of "\<lambda>m. ov m l"] by simp
  have P: "(\<Sum>m\<leftarrow>bags ?st. \<Sum>l\<in>?L. pairs (ov m l)) = nPairPos ?s"
    using sc single [of "\<lambda>m. \<Sum>l\<in>?L. pairs (ov m l)"] by (simp add: ovr scan_inv_def)
  have T: "(\<Sum>m\<leftarrow>bags ?st. pairs (\<Sum>l\<in>?L. ov m l)) = pairs (numberOfLabeledNodes ?s)"
    using sc single [of "\<lambda>m. pairs (\<Sum>l\<in>?L. ov m l)"] by (simp add: ovr scan_inv_def)
  show "nPairCounted ?st = normalization pos ?s"
    using cnt P T by (cases pos) (simp_all add: normalization_def pairs_def Let_def)
qed

subsection \<open>The entry points\<close>

lemma shapes_match_shapes:
  assumes "wf_view (D + 1) affinities" and "wf_view D groundtruth" and "wf_view (D + 1) g"
    and "shapes_match D affinities groundtruth g"
  shows "shape affinities = D # shape groundtruth" and "shape g = D # shape groundtruth"
proof -
  have *: "sh = D # shape groundtruth"
    if "length sh = D + 1" and "sh ! 0 = D" and "\<forall>d<D. sh ! (d + 1) = shape groundtruth ! d"
    for sh
  proof (rule nth_equalityI)
    show "length sh = length (D # shape groundtruth)"
      using that assms(2) by (simp add: wf_view_def)
    fix i assume "i < length sh"
    then show "sh ! i = (D # shape groundtruth) ! i"
      using that by (cases i) simp_all
  qed
  have m: "\<forall>d<D. shape affinities ! (d + 1) = shape groundtruth ! d \<and>
                 shape affinities ! (d + 1) = shape g ! (d + 1)"
  proof (intro allI impI)
    fix d assume "d < D"
    then have "d \<in> set [0..<D]" by simp
    with assms(4) show "shape affinities ! (d + 1) = shape groundtruth ! d \<and>
                 shape affinities ! (d + 1) = shape g ! (d + 1)"
      unfolding shapes_match_def by blast
  qed
  then have mg: "\<forall>d<D. shape g ! (d + 1) = shape groundtruth ! d"
    by auto
  show "shape affinities = D # shape groundtruth"
    using assms m by (intro *) (simp_all add: wf_view_def shapes_match_def)
  show "shape g = D # shape groundtruth"
    using assms mg by (intro *) (simp_all add: wf_view_def shapes_match_def)
qed

lemma sweep_counted:
  assumes sa: "shape affinities = D # shape groundtruth" and lg: "length (shape groundtruth) = D"
    and wf: "length (data groundtruth) = view_size groundtruth"
    and es: "set es = {0..<D * view_size groundtruth}"
  shows "nPairCounted (sweep D affinities groundtruth pos g es)
           = normalization pos (scan_groundtruth groundtruth)"
proof (cases "0 < view_size groundtruth")
  case True
  then show ?thesis by (rule sweep_final(1) [OF sa lg wf es])
next
  case False
  then have "data groundtruth = []" and "es = []"
    using wf es by simp_all
  moreover from this have "scan_inv groundtruth {} [] (scan_groundtruth groundtruth)"
    using scan_groundtruth_inv [OF wf, of "{}"] by simp
  ultimately show ?thesis
    by (simp add: sweep_def scan_inv_def normalization_def)
qed

lemma sorted_edges_covers:
  assumes "shape affinities = D # shape groundtruth"
  shows "set (sorted_edges affinities) = {0..<D * view_size groundtruth}"
  using assms by (simp add: sorted_edges_set view_size_def)

lemma scan_all_zero:
  assumes "length (data groundtruth) = view_size groundtruth"
    and "\<forall>x\<in>set (data groundtruth). x = 0"
  shows "nPairPos (scan_groundtruth groundtruth) = 0"
proof -
  have "scan_inv groundtruth {0} (data groundtruth) (scan_groundtruth groundtruth)"
    using assms(2) by (intro scan_groundtruth_inv [OF assms(1)]) auto
  then show ?thesis by (simp add: scan_inv_def)
qed

lemma scan_single_label:
  assumes wf: "length (data groundtruth) = view_size groundtruth"
    and l: "l \<noteq> 0" and only: "\<forall>x\<in>set (data groundtruth). x = 0 \<or> x = l"
  shows "nPairPos (scan_groundtruth groundtruth) = pairs (count_list (data groundtruth) l)"
    and "numberOfLabeledNodes (scan_groundtruth groundtruth) = count_list (data groundtruth) l"
proof -
  have "scan_inv groundtruth {0, l} (data groundtruth) (scan_groundtruth groundtruth)"
    using only by (intro scan_groundtruth_inv [OF wf]) auto
  then show "nPairPos (scan_groundtruth groundtruth) = pairs (count_list (data groundtruth) l)"
    and "numberOfLabeledNodes (scan_groundtruth groundtruth) = count_list (data groundtruth) l"
    using l by (simp_all add: scan_inv_def)
qed

lemma pairs_pos: "2 \<le> k \<Longrightarrow> 0 < pairs k"
proof -
  assume "2 \<le> k"
  then obtain j where "k = Suc (Suc j)" by (metis add_2_eq_Suc le_Suc_ex)
  then show ?thesis by (simp add: pairs_Suc)
qed

lemma shapes_match_intro:
  assumes "shape affinities = D # shape groundtruth" and "shape g = D # shape groundtruth"
  shows "shapes_match D affinities groundtruth g"
  using assms by (simp add: shapes_match_def)

lemma synth_step_shape:
  "shape (fst (synth_step D affinities groundtruth v c)) = shape (fst v) \<and>
   shape (snd (synth_step D affinities groundtruth v c)) = shape (snd v)"
  by (simp add: synth_step_def Let_def view_set_def)

lemma foldl_synth_shape:
  "shape (fst (foldl (synth_step D affinities groundtruth) v cs)) = shape (fst v) \<and>
   shape (snd (foldl (synth_step D affinities groundtruth) v cs)) = shape (snd v)"
  by (induction cs arbitrary: v) (simp_all add: synth_step_shape)

lemma synth_views_shape:
  "shape (fst (synth_views D affinities groundtruth)) = shape affinities"
  "shape (snd (synth_views D affinities groundtruth)) = shape affinities"
  using foldl_synth_shape [of D affinities groundtruth
      "(marray_uninitialized (shape affinities), marray_uninitialized (shape affinities))"
      "forEachCoordinate (shape affinities)"]
  by (simp_all add: synth_views_def marray_uninitialized_def)

lemma compute_malis_gradient_scalars:
  assumes "compute_malis_gradient D affinities groundtruth pos out = (None, out')"
    and "gradientsOut out2 = gradientsOut out"
  shows "compute_malis_gradient D affinities groundtruth pos out2 = (None, out')"
  using assms by (auto simp: compute_malis_gradient_def Let_def split: if_splits)

lemma compute_malis_gradient_error:
  assumes "compute_malis_gradient D affinities groundtruth pos out = (Some err, out')"
  shows "out' = out \<and>
         (if shapes_match D affinities groundtruth (gradientsOut out)
          then err = DegenerateNormalization \<and>
               normalization pos (scan_groundtruth groundtruth) = 0
          else err = ShapeMismatch)"
  using assms by (auto simp: compute_malis_gradient_def Let_def split: if_splits)

subsection \<open>The gradient slots\<close>

lemma edge_step_frame:
  fixes D affinities groundtruth e st pos n
  defines "st' \<equiv> edge_step D affinities groundtruth pos n st e"
    and "c \<equiv> edge_coord D affinities e"
  shows "shape (gradients st') = shape (gradients st) \<and>
     length (data (gradients st')) = length (data (gradients st)) \<and>
     (\<forall>j. j \<noteq> view_index (gradients st) c \<longrightarrow>
          data (gradients st') ! j = data (gradients st) ! j)"
proof (cases "\<not> edge_valid D affinities e \<or>
           ufd_find (sets st) (edge_nodeU D affinities groundtruth e)
             = ufd_find (sets st) (edge_nodeV D affinities groundtruth e)")
  case True
  then have "st' = st" unfolding st'_def by (rule edge_step_skip)
  then show ?thesis by simp
next
  case False
  define setU where "setU = ufd_find (sets st) (edge_nodeU D affinities groundtruth e)"
  define setV where "setV = ufd_find (sets st) (edge_nodeV D affinities groundtruth e)"
  from False have valid: "edge_valid D affinities e" and ne: "setU \<noteq> setV"
    by (simp_all add: setU_def setV_def)
  define st1 where "st1 = pair_loops pos affinities c (bags st ! setU) (bags st ! setV) st"
  define merged where "merged = ufd_merge (sets st) setU setV"
  define st2 where "st2 = st1\<lparr>gradients := view_set (gradients st1) c
                                (view_at (gradients st1) c / real n)\<rparr>"
  have rel: "pair_rel c st st1"
    using pair_loops_props [of c st pos affinities "bags st ! setU" "bags st ! setV"]
    by (simp add: st1_def)
  have ix: "view_index (gradients st1) c = view_index (gradients st) c"
    using rel by (intro view_index_shape) (simp add: pair_rel_def)
  have step: "st' = (let (keep, gone) = (if ufd_find merged setU = setV then (setV, setU)
                                          else (setU, setV))
                     in st2\<lparr>sets := merged,
                            bags := (bags st2)[keep := move_entries (bags st2 ! keep) (bags st2 ! gone),
                                               gone := []]\<rparr>)"
    using valid ne
    unfolding st'_def edge_step_def st2_def st1_def merged_def setU_def setV_def c_def
      edge_valid_def edge_gtU_def edge_axis_def edge_nodeU_def edge_nodeV_def Let_def
    by simp
  have g: "gradients st' = gradients st2"
    by (simp add: step)
  show ?thesis
    unfolding g using rel ix by (simp add: st2_def pair_rel_def view_set_def)
qed

lemma sweep_frame:
  assumes sa: "shape affinities = D # shape groundtruth" and lg: "length (shape groundtruth) = D"
    and sg: "shape (gradients st0) = D # shape groundtruth"
    and es: "\<forall>e'\<in>set es. e' < D * view_size groundtruth"
    and inv: "\<not> edge_valid D affinities e"
  shows "shape (gradients (foldl (edge_step D affinities groundtruth pos n) st0 es))
           = D # shape groundtruth \<and>
         length (data (gradients (foldl (edge_step D affinities groundtruth pos n) st0 es)))
           = length (data (gradients st0)) \<and>
         data (gradients (foldl (edge_step D affinities groundtruth pos n) st0 es)) ! e
           = data (gradients st0) ! e"
  using es
proof (induction es rule: rev_induct)
  case Nil
  show ?case using sg by simp
next
  case (snoc e' es)
  let ?st = "foldl (edge_step D affinities groundtruth pos n) st0 es"
  let ?st' = "edge_step D affinities groundtruth pos n ?st e'"
  from snoc have sh: "shape (gradients ?st) = D # shape groundtruth"
    and len: "length (data (gradients ?st)) = length (data (gradients st0))"
    and val: "data (gradients ?st) ! e = data (gradients st0) ! e"
    and e': "e' < D * view_size groundtruth"
    by simp_all
  note fr = edge_step_frame [of D affinities groundtruth pos n ?st e']
  have ix: "view_index (gradients ?st) (edge_coord D affinities e') = e'"
    unfolding edge_coord_eq [OF sa lg]
    by (rule view_index_edge_coord [OF sh]) (use e' in \<open>simp add: view_size_def\<close>)
  have "data (gradients ?st') ! e = data (gradients ?st) ! e"
  proof (cases "e' = e")
    case True
    then have "?st' = ?st" using inv by (simp add: edge_step_skip)
    then show ?thesis by simp
  next
    case False
    then show ?thesis using fr ix by simp
  qed
  then show ?case using fr sh len val by simp
qed

lemma edge_invalid_iff:
  assumes sa: "shape affinities = D # shape groundtruth" and lg: "length (shape groundtruth) = D"
    and e: "e < D * view_size groundtruth"
  shows "edge_valid D affinities e \<longleftrightarrow>
           edge_coord D affinities e ! (edge_coord D affinities e ! 0 + 1) > 0"
proof -
  have "e div view_size groundtruth < D"
    using e by (rule less_mult_imp_div_less)
  then show ?thesis
    unfolding edge_valid_def edge_gtU_eq [OF sa lg] edge_axis_eq [OF sa lg]
      edge_coord_eq [OF sa lg]
    by (simp add: view_size_def)
qed

subsection \<open>The synthesized views\<close>

lemma synth_step_eq:
  "synth_step D affinities groundtruth v c =
     (view_set (fst v) c (if same_segment D groundtruth c then view_at affinities c else 0),
      view_set (snd v) c (if same_segment D groundtruth c then 1 else view_at affinities c))"
  by (auto simp: synth_step_def same_segment_def Let_def)

lemma foldl_synth_split:
  "foldl (synth_step D affinities groundtruth) (vp, vn) cs =
     (foldl (\<lambda>w c. view_set w c (if same_segment D groundtruth c then view_at affinities c else 0))
        vp cs,
      foldl (\<lambda>w c. view_set w c (if same_segment D groundtruth c then 1 else view_at affinities c))
        vn cs)"
  by (induction cs arbitrary: vp vn) (simp_all add: synth_step_eq)

lemma foldl_view_set_shape:
  "shape (foldl (\<lambda>w c. view_set w c (f c)) v cs) = shape v \<and>
   length (data (foldl (\<lambda>w c. view_set w c (f c)) v cs)) = length (data v)"
  by (induction cs arbitrary: v) (simp_all add: view_set_def)

lemma view_at_view_set:
  "view_at (view_set w c' x) c = (data w)[view_index w c' := x] ! view_index w c"
proof -
  have "view_index (view_set w c' x) c = view_index w c"
    by (rule view_index_shape) (simp add: view_set_def)
  then show ?thesis by (simp add: view_at_def) (simp add: view_set_def)
qed

lemma foldl_view_set:
  assumes "distinct (map (view_index v) cs)" and "c \<in> set cs"
    and "\<forall>c\<in>set cs. view_index v c < length (data v)"
  shows "view_at (foldl (\<lambda>w c. view_set w c (f c)) v cs) c = f c"
  using assms
proof (induction cs rule: rev_induct)
  case Nil
  then show ?case by simp
next
  case (snoc c' cs)
  let ?w = "foldl (\<lambda>w c. view_set w c (f c)) v cs"
  have sh: "shape ?w = shape v" and len: "length (data ?w) = length (data v)"
    using foldl_view_set_shape [of f v cs] by simp_all
  have ix: "view_index ?w x = view_index v x" for x
    by (rule view_index_shape [OF sh])
  show ?case
  proof (cases "c = c'")
    case True
    then show ?thesis
      using snoc.prems(3) by (simp add: view_at_view_set ix len)
  next
    case False
    then have c: "c \<in> set cs" using snoc.prems(2) by simp
    have "view_index v c' \<notin> view_index v ` set cs"
      using snoc.prems(1) by simp
    moreover have "view_index v c \<in> view_index v ` set cs"
      using c by (rule imageI)
    ultimately have ne: "view_index v c \<noteq> view_index v c'"
      by metis
    have "view_at ?w c = f c"
      using snoc.prems c by (intro snoc.IH) simp_all
    then show ?thesis
      using ne by (simp add: view_at_view_set ix) (simp add: view_at_def ix)
  qed
qed

lemma synth_views_at:
  assumes "c \<in> set (forEachCoordinate (shape affinities))"
  shows "view_at (fst (synth_views D affinities groundtruth)) c
           = (if same_segment D groundtruth c then view_at affinities c else 0)"
    and "view_at (snd (synth_views D affinities groundtruth)) c
           = (if same_segment D groundtruth c then 1 else view_at affinities c)"
proof -
  let ?v = "marray_uninitialized (shape affinities)"
  let ?cs = "forEachCoordinate (shape affinities)"
  have sh: "shape ?v = shape affinities" and len: "length (data ?v) = view_size ?v"
    by (simp_all add: marray_uninitialized_def view_size_def)
  have m: "map (view_index ?v) ?cs = [0..<view_size ?v]"
    using map_view_index [of ?v] by (simp add: sh)
  have d: "distinct (map (view_index ?v) ?cs)"
    unfolding m by simp
  have lt: "\<forall>c\<in>set ?cs. view_index ?v c < length (data ?v)"
  proof
    fix x assume "x \<in> set ?cs"
    then have "view_index ?v x \<in> set (map (view_index ?v) ?cs)" by simp
    then show "view_index ?v x < length (data ?v)"
      unfolding m len by simp
  qed
  show "view_at (fst (synth_views D affinities groundtruth)) c
           = (if same_segment D groundtruth c then view_at affinities c else 0)"
    unfolding synth_views_def foldl_synth_split fst_conv
    by (rule foldl_view_set [OF d assms lt])
  show "view_at (snd (synth_views D affinities groundtruth)) c
           = (if same_segment D groundtruth c then 1 else view_at affinities c)"
    unfolding synth_views_def foldl_synth_split snd_conv
    by (rule foldl_view_set [OF d assms lt])
qed

subsection \<open>The bags along the sweep\<close>

lemma edge_step_bags:
  fixes D affinities groundtruth e st pos n
  defines "st' \<equiv> edge_step D affinities groundtruth pos n st e"
  assumes inv: "sweep_inv N L seg pos st"
    and nodes: "edge_valid D affinities e \<Longrightarrow>
                  edge_nodeU D affinities groundtruth e < N \<and>
                  edge_nodeV D affinities groundtruth e < N"
  shows "bags st' = bags st \<or>
    (\<exists>keep gone. keep < N \<and> gone < N \<and> keep \<noteq> gone \<and>
       ufd_find (sets st) keep = keep \<and> ufd_find (sets st) gone = gone \<and>
       ufd_find (sets st') keep = keep \<and> ufd_find (sets st') gone = keep \<and>
       (\<forall>l. ov (bags st' ! keep) l = ov (bags st ! keep) l + ov (bags st ! gone) l) \<and>
       bags st' ! gone = [] \<and>
       (\<forall>r<N. r \<noteq> keep \<longrightarrow> r \<noteq> gone \<longrightarrow> bags st' ! r = bags st ! r))"
proof (cases "\<not> edge_valid D affinities e \<or>
           ufd_find (sets st) (edge_nodeU D affinities groundtruth e)
             = ufd_find (sets st) (edge_nodeV D affinities groundtruth e)")
  case True
  then have "st' = st" unfolding st'_def by (rule edge_step_skip)
  then show ?thesis by simp
next
  case False
  define setU where "setU = ufd_find (sets st) (edge_nodeU D affinities groundtruth e)"
  define setV where "setV = ufd_find (sets st) (edge_nodeV D affinities groundtruth e)"
  from False have valid: "edge_valid D affinities e" and ne: "setU \<noteq> setV"
    by (simp_all add: setU_def setV_def)
  from inv have ok: "ufd_ok N (sets st)" and lb: "length (bags st) = N"
    and dist: "\<forall>r<N. distinct (map fst (bags st ! r)) \<and> fst ` set (bags st ! r) \<subseteq> L"
    unfolding sweep_inv_def by blast+
  from nodes [OF valid] ok have lt: "setU < N" "setV < N"
    and roots: "ufd_find (sets st) setU = setU" "ufd_find (sets st) setV = setV"
    by (simp_all add: setU_def setV_def ufd_ok_def ufd_find_def)
  from edge_step_merge [OF valid ne [unfolded setU_def setV_def] ok
      lt [unfolded setU_def setV_def] roots [unfolded setU_def setV_def]]
  obtain keep gone where kg: "(keep = setU \<and> gone = setV) \<or> (keep = setV \<and> gone = setU)"
    and par: "parents (sets st') = map (\<lambda>p. if p = gone then keep else p) (parents (sets st))"
    and bg: "bags st' = (bags st)[keep := move_entries (bags st ! keep) (bags st ! gone), gone := []]"
    unfolding st'_def setU_def setV_def by blast
  from kg ne lt roots have k: "keep < N" and g: "gone < N" and kne: "keep \<noteq> gone"
    and rk: "ufd_find (sets st) keep = keep" and rg: "ufd_find (sets st) gone = gone"
    by auto
  have lp: "length (parents (sets st)) = N"
    using ok by (simp add: ufd_ok_def)
  have fk: "ufd_find (sets st') keep = keep" and fg: "ufd_find (sets st') gone = keep"
    using k g kne rk rg lp by (simp_all add: ufd_find_def par)
  have dG: "distinct (map fst (bags st ! gone))"
    using dist g by simp
  have bk: "bags st' ! keep = move_entries (bags st ! keep) (bags st ! gone)"
    using k kne lb by (simp add: bg)
  have ovk: "\<forall>l. ov (bags st' ! keep) l = ov (bags st ! keep) l + ov (bags st ! gone) l"
    unfolding bk by (simp add: ov_move_entries [OF dG])
  have bgone: "bags st' ! gone = []"
    using g lb by (simp add: bg)
  have others: "\<forall>r<N. r \<noteq> keep \<longrightarrow> r \<noteq> gone \<longrightarrow> bags st' ! r = bags st ! r"
    by (simp add: bg)
  show ?thesis
    using k g kne rk rg fk fg ovk bgone others by blast
qed

lemma reps_sum:
  assumes inv: "sweep_inv N L seg pos st"
  shows "(\<Sum>r | r < N \<and> ufd_find (sets st) r = r. ov (bags st ! r) l) = seg l"
proof -
  from inv have lb: "length (bags st) = N"
    and empty: "\<forall>r<N. ufd_find (sets st) r \<noteq> r \<longrightarrow> bags st ! r = []"
    and cons: "\<forall>l. (\<Sum>m\<leftarrow>bags st. ov m l) = seg l"
    unfolding sweep_inv_def by blast+
  have "(\<Sum>m\<leftarrow>bags st. ov m l) = (\<Sum>r = 0..<N. ov (bags st ! r) l)"
    using sum_list_sum_nth [of "map (\<lambda>m. ov m l) (bags st)"] lb by simp
  also have "\<dots> = (\<Sum>r | r < N \<and> ufd_find (sets st) r = r. ov (bags st ! r) l)"
    using empty by (intro sum.mono_neutral_right) auto
  finally show ?thesis using cons by simp
qed

section \<open>Properties\<close>

text \<open>
  C1. The one-dimensional scenario: ground truth \<open>[1,1,2,2]\<close>, affinities
  \<open>[0.5, 0.9, 0.1, 0.8]\<close> of shape \<open>(1,4)\<close>, \<open>pos = true\<close> and a zeroed gradient buffer
  give the loss \<open>0.025\<close>, the gradient \<open>[0, 0.05, 0, 0.1]\<close>, the classification error
  \<open>0\<close> and the Rand index \<open>1\<close>.
\<close>

theorem C1_concrete_scenario:
  "compute_malis_gradient 1
     \<lparr>shape = [1, 4], data = [5 / 10, 9 / 10, 1 / 10, 8 / 10]\<rparr>
     \<lparr>shape = [4], data = [1, 1, 2, 2]\<rparr>
     True
     \<lparr>gradientsOut = \<lparr>shape = [1, 4], data = [0, 0, 0, 0]\<rparr>,
      lossOut = l0, classificationErrorOut = c0, randIndexOut = r0\<rparr>
   = (None,
      \<lparr>gradientsOut = \<lparr>shape = [1, 4], data = [0, 5 / 100, 0, 1 / 10]\<rparr>,
       lossOut = 25 / 1000, classificationErrorOut = 0, randIndexOut = 1\<rparr>)"
  by code_simp

text \<open>
  C2. Constrained decomposition. When the two separate passes succeed (\<open>pos = true\<close>
  on the synthesized positive view, \<open>pos = false\<close> on the synthesized negative view,
  each into its own zeroed buffer, whatever the scalar outputs held before), the wrapper
  succeeds, every element of its gradient output is the sum of the two gradients, and
  its loss is the mean of the two losses. Nothing of the result depends on the elements
  the caller's buffer held before.
\<close>

theorem C2_constrained_decomposition:
  assumes "compute_malis_gradient D (fst (synth_views D affinities groundtruth)) groundtruth True
             \<lparr>gradientsOut = marray_filled (shape affinities) 0,
              lossOut = a1, classificationErrorOut = a2, randIndexOut = a3\<rparr> = (None, outPos)"
    and "compute_malis_gradient D (snd (synth_views D affinities groundtruth)) groundtruth False
             \<lparr>gradientsOut = marray_filled (shape affinities) 0,
              lossOut = b1, classificationErrorOut = b2, randIndexOut = b3\<rparr> = (None, outNeg)"
  shows "compute_constrained_malis_gradient D affinities groundtruth (gradients_out, loss_out)
           = (None,
              (\<lparr>shape = shape gradients_out,
                data = map2 (+) (data (gradientsOut outNeg)) (data (gradientsOut outPos))\<rparr>,
               (lossOut outPos + lossOut outNeg) / 2))"
proof -
  let ?z = "marray_filled (shape affinities) 0"
  have pos: "compute_malis_gradient D (fst (synth_views D affinities groundtruth)) groundtruth True
            (local_outputs ?z) = (None, outPos)"
    by (rule compute_malis_gradient_scalars [OF assms(1)]) (simp add: local_outputs_def)
  have neg: "compute_malis_gradient D (snd (synth_views D affinities groundtruth)) groundtruth False
            (outPos\<lparr>gradientsOut := ?z, lossOut := undefined\<rparr>) = (None, outNeg)"
    by (rule compute_malis_gradient_scalars [OF assms(2)]) simp
  show ?thesis
    using pos neg
    by (simp add: compute_constrained_malis_gradient_def Let_def split_beta)
qed

theorem C2_constrained_decomposition_witness:
  "compute_malis_gradient 1
     (fst (synth_views 1 \<lparr>shape = [1, 4], data = [5 / 10, 9 / 10, 1 / 10, 8 / 10]\<rparr>
                         \<lparr>shape = [4], data = [1, 1, 2, 2]\<rparr>))
     \<lparr>shape = [4], data = [1, 1, 2, 2]\<rparr> True
     \<lparr>gradientsOut = marray_filled [1, 4] 0,
      lossOut = 0, classificationErrorOut = 0, randIndexOut = 0\<rparr>
   = (None, \<lparr>gradientsOut = \<lparr>shape = [1, 4], data = [0, 5 / 100, 0, 1 / 10]\<rparr>,
             lossOut = 25 / 1000, classificationErrorOut = 0, randIndexOut = 1\<rparr>) \<and>
   compute_malis_gradient 1
     (snd (synth_views 1 \<lparr>shape = [1, 4], data = [5 / 10, 9 / 10, 1 / 10, 8 / 10]\<rparr>
                         \<lparr>shape = [4], data = [1, 1, 2, 2]\<rparr>))
     \<lparr>shape = [4], data = [1, 1, 2, 2]\<rparr> False
     \<lparr>gradientsOut = marray_filled [1, 4] 0,
      lossOut = 0, classificationErrorOut = 0, randIndexOut = 0\<rparr>
   = (None, \<lparr>gradientsOut = \<lparr>shape = [1, 4], data = [0, 0, - (1 / 10), 0]\<rparr>,
             lossOut = 1 / 100, classificationErrorOut = 0, randIndexOut = 1\<rparr>) \<and>
   compute_constrained_malis_gradient 1
     \<lparr>shape = [1, 4], data = [5 / 10, 9 / 10, 1 / 10, 8 / 10]\<rparr>
     \<lparr>shape = [4], data = [1, 1, 2, 2]\<rparr>
     (\<lparr>shape = [1, 4], data = [1, 2, 3, 4]\<rparr>, 5)
   = (None, (\<lparr>shape = [1, 4], data = [0, 5 / 100, - (1 / 10), 1 / 10]\<rparr>, 7 / 400))"
proof -
  let ?a = "\<lparr>shape = [1, 4], data = [5 / 10, 9 / 10, 1 / 10, 8 / 10 :: real]\<rparr>"
  let ?g = "\<lparr>shape = [4], data = [1, 1, 2, 2 :: nat]\<rparr>"
  let ?o = "\<lparr>gradientsOut = marray_filled (shape ?a) 0,
      lossOut = 0, classificationErrorOut = 0, randIndexOut = 0\<rparr>"
  have h1: "compute_malis_gradient 1 (fst (synth_views 1 ?a ?g)) ?g True ?o
      = (None, \<lparr>gradientsOut = \<lparr>shape = [1, 4], data = [0, 5 / 100, 0, 1 / 10]\<rparr>,
             lossOut = 25 / 1000, classificationErrorOut = 0, randIndexOut = 1\<rparr>)"
    by code_simp
  have h2: "compute_malis_gradient 1 (snd (synth_views 1 ?a ?g)) ?g False ?o
      = (None, \<lparr>gradientsOut = \<lparr>shape = [1, 4], data = [0, 0, - (1 / 10), 0]\<rparr>,
             lossOut = 1 / 100, classificationErrorOut = 0, randIndexOut = 1\<rparr>)"
    by code_simp
  show ?thesis
    using C2_constrained_decomposition [OF h1 h2, of "\<lparr>shape = [1, 4], data = [1, 2, 3, 4]\<rparr>" 5]
      h1 h2 by simp
qed

text \<open>
  C3. Normalization invariant. With well-formed arrays of matching shapes, the sum of
  the \<open>nPair\<close> values counted over the whole sweep (the ghost accumulator
  \<open>nPairCounted\<close>) is \<open>nPairPos\<close> for \<open>pos = true\<close> and \<open>nPairTot - nPairPos\<close> for
  \<open>pos = false\<close>: every labeled pair of the polarity is counted exactly once.
\<close>

theorem C3_normalization_invariant:
  assumes "wf_view (D + 1) affinities" and "wf_view D groundtruth"
    and "wf_view (D + 1) gradients_out"
    and "shapes_match D affinities groundtruth gradients_out"
  shows "nPairCounted (sweep D affinities groundtruth pos gradients_out (sorted_edges affinities))
           = (let s = scan_groundtruth groundtruth in
              if pos then nPairPos s
              else numberOfLabeledNodes s * (numberOfLabeledNodes s - 1) div 2 - nPairPos s)"
proof -
  have sa: "shape affinities = D # shape groundtruth"
    by (rule shapes_match_shapes(1) [OF assms])
  have "nPairCounted (sweep D affinities groundtruth pos gradients_out (sorted_edges affinities))
      = normalization pos (scan_groundtruth groundtruth)"
    using assms(2) by (intro sweep_counted [OF sa _ _ sorted_edges_covers [OF sa]])
      (simp_all add: wf_view_def)
  then show ?thesis by (simp add: normalization_def Let_def)
qed

theorem C3_normalization_invariant_witness:
  "wf_view (1 + 1) \<lparr>shape = [1, 4], data = [5 / 10, 9 / 10, 1 / 10, 8 / 10 :: real]\<rparr> \<and>
   wf_view 1 \<lparr>shape = [4], data = [1, 1, 2, 2 :: nat]\<rparr> \<and>
   wf_view (1 + 1) \<lparr>shape = [1, 4], data = [0, 0, 0, 0 :: real]\<rparr> \<and>
   shapes_match 1 \<lparr>shape = [1, 4], data = [5 / 10, 9 / 10, 1 / 10, 8 / 10]\<rparr>
     \<lparr>shape = [4], data = [1, 1, 2, 2]\<rparr> \<lparr>shape = [1, 4], data = [0, 0, 0, 0]\<rparr> \<and>
   nPairCounted (sweep 1 \<lparr>shape = [1, 4], data = [5 / 10, 9 / 10, 1 / 10, 8 / 10]\<rparr>
       \<lparr>shape = [4], data = [1, 1, 2, 2]\<rparr> False \<lparr>shape = [1, 4], data = [0, 0, 0, 0]\<rparr>
       (sorted_edges \<lparr>shape = [1, 4], data = [5 / 10, 9 / 10, 1 / 10, 8 / 10]\<rparr>)) = 4"
proof -
  let ?a = "\<lparr>shape = [1, 4], data = [5 / 10, 9 / 10, 1 / 10, 8 / 10 :: real]\<rparr>"
  let ?g = "\<lparr>shape = [4], data = [1, 1, 2, 2 :: nat]\<rparr>"
  let ?o = "\<lparr>shape = [1, 4], data = [0, 0, 0, 0 :: real]\<rparr>"
  have h1: "wf_view (1 + 1) ?a" by code_simp
  have h2: "wf_view 1 ?g" by code_simp
  have h3: "wf_view (1 + 1) ?o" by code_simp
  have h4: "shapes_match 1 ?a ?g ?o" by code_simp
  have v: "(let s = scan_groundtruth ?g in
              if False then nPairPos s
              else numberOfLabeledNodes s * (numberOfLabeledNodes s - 1) div 2 - nPairPos s) = 4"
    by code_simp
  show ?thesis
    using C3_normalization_invariant [OF h1 h2 h3 h4, of False] h1 h2 h3 h4 v by simp
qed

text \<open>
  C4. Boundary edges. With well-formed arrays whose shapes pass the check, an edge whose
  spatial coordinate along its own axis is \<open>0\<close> is skipped: its iteration leaves the
  whole state of the sweep (forest, bags, loss, counters, gradient) as it is, whatever
  the affinity, and after the call its slot of the gradient holds the value it held
  before.
\<close>

theorem C4_boundary_edges:
  assumes "wf_view (D + 1) affinities" and "wf_view D groundtruth"
    and "wf_view (D + 1) (gradientsOut out)"
    and "shapes_match D affinities groundtruth (gradientsOut out)"
    and "e < view_size affinities"
    and "edge_coord D affinities e ! (edge_coord D affinities e ! 0 + 1) = 0"
  shows "(\<forall>st n. edge_step D affinities groundtruth pos n st e = st) \<and>
         view_at (gradientsOut (snd (compute_malis_gradient D affinities groundtruth pos out)))
             (edge_coord D affinities e)
           = view_at (gradientsOut out) (edge_coord D affinities e)"
proof -
  have sa: "shape affinities = D # shape groundtruth"
    and sg: "shape (gradientsOut out) = D # shape groundtruth"
    by (rule shapes_match_shapes [OF assms(1-4)])+
  have lg: "length (shape groundtruth) = D"
    using assms(2) by (simp add: wf_view_def)
  have e: "e < D * view_size groundtruth"
    using assms(5) sa by (simp add: view_size_def)
  have inv: "\<not> edge_valid D affinities e"
    using assms(6) by (simp add: edge_invalid_iff [OF sa lg e])
  then have skip: "\<forall>st n. edge_step D affinities groundtruth pos n st e = st"
    by (simp add: edge_step_skip)
  let ?st = "sweep D affinities groundtruth pos (gradientsOut out) (sorted_edges affinities)"
  have es: "\<forall>e'\<in>set (sorted_edges affinities). e' < D * view_size groundtruth"
    by (simp add: sorted_edges_covers [OF sa])
  have fr: "shape (gradients ?st) = D # shape groundtruth \<and>
      length (data (gradients ?st)) = length (data (gradientsOut out)) \<and>
      data (gradients ?st) ! e = data (gradientsOut out) ! e"
  proof -
    let ?init = "\<lparr>sets = ufd_init (view_size groundtruth),
      bags = overlaps (scan_groundtruth groundtruth), loss = 0, nPairIncorrect = 0,
      gradients = gradientsOut out, nPairCounted = 0\<rparr>"
    have sg0: "shape (gradients ?init) = D # shape groundtruth"
      using sg by simp
    show ?thesis
      using sweep_frame [OF sa lg sg0 es inv, where pos = pos
          and n = "normalization pos (scan_groundtruth groundtruth)"]
      by (simp add: sweep_def Let_def)
  qed
  have ix: "view_index (gradientsOut out) (edge_coord D affinities e) = e"
    unfolding edge_coord_eq [OF sa lg]
    by (rule view_index_edge_coord [OF sg]) (use e in \<open>simp add: view_size_def\<close>)
  have "view_at (gradients ?st) (edge_coord D affinities e)
      = view_at (gradientsOut out) (edge_coord D affinities e)"
    using fr sg
    by (simp add: view_at_def view_index_shape [of "gradients ?st" "gradientsOut out"] ix)
  moreover have "gradientsOut (snd (compute_malis_gradient D affinities groundtruth pos out))
      = gradientsOut out \<or>
    gradientsOut (snd (compute_malis_gradient D affinities groundtruth pos out)) = gradients ?st"
    by (simp add: compute_malis_gradient_def Let_def)
  ultimately show ?thesis using skip by auto
qed

theorem C4_boundary_edges_witness:
  "wf_view (2 + 1) \<lparr>shape = [2, 2, 2], data = [1 / 10, 2 / 10, 9 / 10, 4 / 10,
                                                  5 / 10, 6 / 10, 7 / 10, 8 / 10 :: real]\<rparr> \<and>
   wf_view 2 \<lparr>shape = [2, 2], data = [1, 1, 2, 2 :: nat]\<rparr> \<and>
   wf_view (2 + 1) \<lparr>shape = [2, 2, 2], data = [10, 11, 12, 13, 14, 15, 16, 17 :: real]\<rparr> \<and>
   shapes_match 2 \<lparr>shape = [2, 2, 2], data = [1 / 10, 2 / 10, 9 / 10, 4 / 10,
                                                 5 / 10, 6 / 10, 7 / 10, 8 / 10]\<rparr>
     \<lparr>shape = [2, 2], data = [1, 1, 2, 2]\<rparr>
     \<lparr>shape = [2, 2, 2], data = [10, 11, 12, 13, 14, 15, 16, 17]\<rparr> \<and>
   edge_coord 2 \<lparr>shape = [2, 2, 2], data = [1 / 10, 2 / 10, 9 / 10, 4 / 10,
                                               5 / 10, 6 / 10, 7 / 10, 8 / 10]\<rparr> 6 = [1, 1, 0] \<and>
   view_at (gradientsOut (snd (compute_malis_gradient 2
       \<lparr>shape = [2, 2, 2], data = [1 / 10, 2 / 10, 9 / 10, 4 / 10,
                                    5 / 10, 6 / 10, 7 / 10, 8 / 10]\<rparr>
       \<lparr>shape = [2, 2], data = [1, 1, 2, 2]\<rparr> True
       \<lparr>gradientsOut = \<lparr>shape = [2, 2, 2], data = [10, 11, 12, 13, 14, 15, 16, 17]\<rparr>,
        lossOut = 0, classificationErrorOut = 0, randIndexOut = 0\<rparr>))) [1, 1, 0] = 16"
proof -
  let ?a = "\<lparr>shape = [2, 2, 2], data = [1 / 10, 2 / 10, 9 / 10, 4 / 10,
                                          5 / 10, 6 / 10, 7 / 10, 8 / 10 :: real]\<rparr>"
  let ?g = "\<lparr>shape = [2, 2], data = [1, 1, 2, 2 :: nat]\<rparr>"
  let ?o = "\<lparr>gradientsOut = \<lparr>shape = [2, 2, 2], data = [10, 11, 12, 13, 14, 15, 16, 17 :: real]\<rparr>,
        lossOut = 0, classificationErrorOut = 0, randIndexOut = 0\<rparr>"
  have h1: "wf_view (2 + 1) ?a" by code_simp
  have h2: "wf_view 2 ?g" by code_simp
  have h3: "wf_view (2 + 1) (gradientsOut ?o)" by code_simp
  have h4: "shapes_match 2 ?a ?g (gradientsOut ?o)" by code_simp
  have h5: "6 < view_size ?a" by code_simp
  have c: "edge_coord 2 ?a 6 = [1, 1, 0]" by code_simp
  have h6: "edge_coord 2 ?a 6 ! (edge_coord 2 ?a 6 ! 0 + 1) = 0"
    unfolding c by simp
  have v: "view_at (gradientsOut ?o) [1, 1, 0] = 16" by code_simp
  show ?thesis
    using C4_boundary_edges [OF h1 h2 h3 h4 h5 h6, of True] h1 h2 h3 h4 c v by simp
qed

text \<open>
  C5. Degenerate input. With \<open>pos = true\<close> and a ground truth whose labels are all
  zero, a call whose shapes pass the check raises the degenerate-normalization error:
  it returns at the test of \<open>nPairNorm\<close>, after the scan and before the sweep, with the
  outputs as they were.
\<close>

theorem C5_all_zero_groundtruth:
  assumes "shapes_match D affinities groundtruth (gradientsOut out)"
    and "wf_view D groundtruth"
    and "\<forall>x\<in>set (data groundtruth). x = 0"
  shows "compute_malis_gradient D affinities groundtruth True out
           = (Some DegenerateNormalization, out)"
proof -
  have "nPairPos (scan_groundtruth groundtruth) = 0"
    using assms(2,3) by (intro scan_all_zero) (simp_all add: wf_view_def)
  then show ?thesis
    using assms(1) by (simp add: compute_malis_gradient_def normalization_def)
qed

theorem C5_all_zero_groundtruth_witness:
  "shapes_match 1 \<lparr>shape = [1, 4], data = [5 / 10, 9 / 10, 1 / 10, 8 / 10]\<rparr>
     \<lparr>shape = [4], data = [0, 0, 0, 0]\<rparr> \<lparr>shape = [1, 4], data = [0, 0, 0, 0]\<rparr> \<and>
   wf_view 1 \<lparr>shape = [4], data = [0, 0, 0, 0 :: nat]\<rparr> \<and>
   compute_malis_gradient 1 \<lparr>shape = [1, 4], data = [5 / 10, 9 / 10, 1 / 10, 8 / 10]\<rparr>
     \<lparr>shape = [4], data = [0, 0, 0, 0]\<rparr> True
     \<lparr>gradientsOut = \<lparr>shape = [1, 4], data = [0, 0, 0, 0]\<rparr>,
      lossOut = 7, classificationErrorOut = 8, randIndexOut = 9\<rparr>
   = (Some DegenerateNormalization,
      \<lparr>gradientsOut = \<lparr>shape = [1, 4], data = [0, 0, 0, 0]\<rparr>,
       lossOut = 7, classificationErrorOut = 8, randIndexOut = 9\<rparr>)"
proof -
  let ?a = "\<lparr>shape = [1, 4], data = [5 / 10, 9 / 10, 1 / 10, 8 / 10 :: real]\<rparr>"
  let ?g = "\<lparr>shape = [4], data = [0, 0, 0, 0 :: nat]\<rparr>"
  let ?o = "\<lparr>gradientsOut = \<lparr>shape = [1, 4], data = [0, 0, 0, 0 :: real]\<rparr>,
      lossOut = 7, classificationErrorOut = 8, randIndexOut = 9\<rparr>"
  have h1: "shapes_match 1 ?a ?g (gradientsOut ?o)" by code_simp
  have h2: "wf_view 1 ?g" by code_simp
  have h3: "\<forall>x\<in>set (data ?g). x = 0" by simp
  show ?thesis
    using C5_all_zero_groundtruth [OF h1 h2 h3] h1 h2 by simp
qed

text \<open>
  C6. A failed call leaves every output parameter as it was. The error is the shape
  error exactly when the shape check fails (the first thing the call does), and the
  degenerate-normalization error exactly when the shapes pass and \<open>nPairNorm\<close> is zero.
\<close>

theorem C6_failure_leaves_outputs:
  assumes "compute_malis_gradient D affinities groundtruth pos out = (Some err, out')"
  shows "gradientsOut out' = gradientsOut out \<and> lossOut out' = lossOut out \<and>
         classificationErrorOut out' = classificationErrorOut out \<and>
         randIndexOut out' = randIndexOut out \<and>
         (if shapes_match D affinities groundtruth (gradientsOut out)
          then err = DegenerateNormalization \<and>
               normalization pos (scan_groundtruth groundtruth) = 0
          else err = ShapeMismatch)"
  using compute_malis_gradient_error [OF assms] by simp

theorem C6_failure_leaves_outputs_witness:
  "compute_malis_gradient 1 \<lparr>shape = [1, 4], data = [5 / 10, 9 / 10, 1 / 10, 8 / 10]\<rparr>
     \<lparr>shape = [3], data = [1, 1, 2]\<rparr> True
     \<lparr>gradientsOut = \<lparr>shape = [1, 4], data = [1, 2, 3, 4]\<rparr>,
      lossOut = 7, classificationErrorOut = 8, randIndexOut = 9\<rparr>
   = (Some ShapeMismatch,
      \<lparr>gradientsOut = \<lparr>shape = [1, 4], data = [1, 2, 3, 4]\<rparr>,
       lossOut = 7, classificationErrorOut = 8, randIndexOut = 9\<rparr>) \<and>
   \<not> shapes_match 1 \<lparr>shape = [1, 4], data = [5 / 10, 9 / 10, 1 / 10, 8 / 10]\<rparr>
     \<lparr>shape = [3], data = [1, 1, 2]\<rparr> \<lparr>shape = [1, 4], data = [1, 2, 3, 4]\<rparr>"
proof -
  let ?a = "\<lparr>shape = [1, 4], data = [5 / 10, 9 / 10, 1 / 10, 8 / 10 :: real]\<rparr>"
  let ?g = "\<lparr>shape = [3], data = [1, 1, 2 :: nat]\<rparr>"
  let ?o = "\<lparr>gradientsOut = \<lparr>shape = [1, 4], data = [1, 2, 3, 4 :: real]\<rparr>,
      lossOut = 7, classificationErrorOut = 8, randIndexOut = 9\<rparr>"
  have h: "compute_malis_gradient 1 ?a ?g True ?o = (Some ShapeMismatch, ?o)" by code_simp
  have n: "\<not> shapes_match 1 ?a ?g (gradientsOut ?o)" by code_simp
  show ?thesis
    using C6_failure_leaves_outputs [OF h] h n by simp
qed

text \<open>
  C7. Range invariants. After a successful call the classification error and the Rand
  index lie in \<open>[0,1]\<close>, and the Rand index is one minus the classification error.
\<close>

theorem C7_range_invariants:
  assumes "wf_view (D + 1) affinities" and "wf_view D groundtruth"
    and "wf_view (D + 1) (gradientsOut out)"
    and "compute_malis_gradient D affinities groundtruth pos out = (None, out')"
  shows "0 \<le> classificationErrorOut out' \<and> classificationErrorOut out' \<le> 1 \<and>
         0 \<le> randIndexOut out' \<and> randIndexOut out' \<le> 1 \<and>
         randIndexOut out' = 1 - classificationErrorOut out'"
proof -
  let ?st = "sweep D affinities groundtruth pos (gradientsOut out) (sorted_edges affinities)"
  let ?n = "normalization pos (scan_groundtruth groundtruth)"
  from assms(4) have sm: "shapes_match D affinities groundtruth (gradientsOut out)"
    and n: "0 < ?n"
    and ce: "classificationErrorOut out' = real (nPairIncorrect ?st) / real ?n"
    and ri: "randIndexOut out' = 1 - real (nPairIncorrect ?st) / real ?n"
    by (auto simp: compute_malis_gradient_def Let_def split: if_splits)
  have sa: "shape affinities = D # shape groundtruth"
    by (rule shapes_match_shapes(1) [OF assms(1-3) sm])
  have lg: "length (shape groundtruth) = D" and wf: "length (data groundtruth) = view_size groundtruth"
    using assms(2) by (simp_all add: wf_view_def)
  have cnt: "nPairCounted ?st = ?n"
    by (rule sweep_counted [OF sa lg wf sorted_edges_covers [OF sa]])
  have N: "0 < view_size groundtruth"
  proof (rule ccontr)
    assume "\<not> 0 < view_size groundtruth"
    then have "data groundtruth = []" using wf by simp
    then have "scan_inv groundtruth {} [] (scan_groundtruth groundtruth)"
      using scan_groundtruth_inv [OF wf, of "{}"] by simp
    then have "?n = 0" by (simp add: scan_inv_def normalization_def)
    then show False using n by simp
  qed
  have "nPairIncorrect ?st \<le> nPairCounted ?st"
    by (rule sweep_final(2) [OF sa lg wf sorted_edges_covers [OF sa] N])
  then have le: "real (nPairIncorrect ?st) \<le> real ?n"
    using cnt by simp
  have "0 \<le> real (nPairIncorrect ?st) / real ?n" by simp
  moreover have "real (nPairIncorrect ?st) / real ?n \<le> 1"
    using le n by (simp add: divide_le_eq_1)
  ultimately show ?thesis using ce ri by simp
qed

theorem C7_range_invariants_witness:
  "wf_view (1 + 1) \<lparr>shape = [1, 4], data = [5 / 10, 3 / 10, 1 / 10, 8 / 10 :: real]\<rparr> \<and>
   wf_view 1 \<lparr>shape = [4], data = [1, 1, 2, 2 :: nat]\<rparr> \<and>
   wf_view (1 + 1) \<lparr>shape = [1, 4], data = [0, 0, 0, 0 :: real]\<rparr> \<and>
   compute_malis_gradient 1 \<lparr>shape = [1, 4], data = [5 / 10, 3 / 10, 1 / 10, 8 / 10]\<rparr>
     \<lparr>shape = [4], data = [1, 1, 2, 2]\<rparr> True
     \<lparr>gradientsOut = \<lparr>shape = [1, 4], data = [0, 0, 0, 0]\<rparr>,
      lossOut = 0, classificationErrorOut = 0, randIndexOut = 0\<rparr>
   = (None, \<lparr>gradientsOut = \<lparr>shape = [1, 4], data = [0, 7 / 20, 0, 1 / 10]\<rparr>,
      lossOut = 53 / 200, classificationErrorOut = 1 / 2, randIndexOut = 1 / 2\<rparr>) \<and>
   (0::real) \<le> 1 / 2 \<and> (1 / 2 :: real) \<le> 1 \<and> (1 / 2 :: real) = 1 - 1 / 2"
proof -
  let ?a = "\<lparr>shape = [1, 4], data = [5 / 10, 3 / 10, 1 / 10, 8 / 10 :: real]\<rparr>"
  let ?g = "\<lparr>shape = [4], data = [1, 1, 2, 2 :: nat]\<rparr>"
  let ?o = "\<lparr>gradientsOut = \<lparr>shape = [1, 4], data = [0, 0, 0, 0 :: real]\<rparr>,
      lossOut = 0, classificationErrorOut = 0, randIndexOut = 0\<rparr>"
  have h1: "wf_view (1 + 1) ?a" by code_simp
  have h2: "wf_view 1 ?g" by code_simp
  have h3: "wf_view (1 + 1) (gradientsOut ?o)" by code_simp
  have h4: "compute_malis_gradient 1 ?a ?g True ?o
      = (None, \<lparr>gradientsOut = \<lparr>shape = [1, 4], data = [0, 7 / 20, 0, 1 / 10]\<rparr>,
      lossOut = 53 / 200, classificationErrorOut = 1 / 2, randIndexOut = 1 / 2\<rparr>)"
    by code_simp
  show ?thesis
    using C7_range_invariants [OF h1 h2 h3 h4] h1 h2 h3 h4 by simp
qed

text \<open>
  C8. The synthesized views. At every coordinate of the affinity field: if the edge is
  invalid, or its two endpoint labels differ, or one of them is \<open>0\<close>, the positive view
  holds \<open>0\<close> and the negative view the raw affinity; otherwise the positive view holds
  the raw affinity and the negative view \<open>1\<close>.
\<close>

theorem C8_synthesized_views:
  assumes "affCoord \<in> set (forEachCoordinate (shape affinities))"
  shows "let (positiveView, negativeView) = synth_views D affinities groundtruth;
             axis = affCoord ! 0;
             gtCoordU = map (\<lambda>d. affCoord ! d) [1..<D + 1];
             gtCoordV = gtCoordU[axis := gtCoordU ! axis - 1];
             labelU = view_at groundtruth gtCoordU;
             labelV = view_at groundtruth gtCoordV
         in if \<not> gtCoordU ! axis > 0 \<or> labelU \<noteq> labelV \<or> labelU = 0 \<or> labelV = 0
            then view_at positiveView affCoord = 0 \<and>
                 view_at negativeView affCoord = view_at affinities affCoord
            else view_at positiveView affCoord = view_at affinities affCoord \<and>
                 view_at negativeView affCoord = 1"
  using synth_views_at [OF assms, of D groundtruth]
  by (auto simp: same_segment_def Let_def split_beta)

theorem C8_synthesized_views_witness:
  "[0, 1] \<in> set (forEachCoordinate
      (shape \<lparr>shape = [1, 4], data = [5 / 10, 9 / 10, 1 / 10, 8 / 10 :: real]\<rparr>)) \<and>
   view_at (fst (synth_views 1 \<lparr>shape = [1, 4], data = [5 / 10, 9 / 10, 1 / 10, 8 / 10]\<rparr>
                   \<lparr>shape = [4], data = [1, 1, 2, 2]\<rparr>)) [0, 1] = 9 / 10 \<and>
   view_at (snd (synth_views 1 \<lparr>shape = [1, 4], data = [5 / 10, 9 / 10, 1 / 10, 8 / 10]\<rparr>
                   \<lparr>shape = [4], data = [1, 1, 2, 2]\<rparr>)) [0, 1] = 1"
proof -
  let ?a = "\<lparr>shape = [1, 4], data = [5 / 10, 9 / 10, 1 / 10, 8 / 10 :: real]\<rparr>"
  let ?g = "\<lparr>shape = [4], data = [1, 1, 2, 2 :: nat]\<rparr>"
  have h: "[0, 1] \<in> set (forEachCoordinate (shape ?a))" by code_simp
  have c: "(let axis = [0, 1 :: nat] ! 0;
             gtCoordU = map (\<lambda>d. [0, 1] ! d) [1..<1 + 1];
             gtCoordV = gtCoordU[axis := gtCoordU ! axis - 1];
             labelU = view_at ?g gtCoordU;
             labelV = view_at ?g gtCoordV
         in \<not> gtCoordU ! axis > 0 \<or> labelU \<noteq> labelV \<or> labelU = 0 \<or> labelV = 0) = False"
    by code_simp
  have v: "view_at ?a [0, 1] = 9 / 10" by code_simp
  show ?thesis
    using C8_synthesized_views [OF h, of 1 ?g] h c v
    by (simp add: Let_def split_beta)
qed

text \<open>
  C9. Label-count conservation. Let \<open>st\<close> be the state of the sweep after \<open>k\<close> edges of
  the sorted queue and \<open>st'\<close> the state after one more. In \<open>st\<close>, for every label the
  bags of the representatives add up to the segment size of the label (for a non-zero
  label, the number of pixels that carry it), and the bag of a non-representative is
  empty. The step to \<open>st'\<close> either leaves the bags as they are or merges two
  representatives: the bag of the one that is kept becomes the label-wise sum of the two
  bags, the bag of the one that is absorbed becomes empty, and no other bag changes.
\<close>

theorem C9_label_count_conservation:
  assumes "wf_view (D + 1) affinities" and "wf_view D groundtruth"
    and "wf_view (D + 1) gradients_out"
    and "shapes_match D affinities groundtruth gradients_out"
  shows "let s = scan_groundtruth groundtruth;
             N = view_size groundtruth;
             pqueue = sorted_edges affinities;
             st = sweep D affinities groundtruth pos gradients_out (take k pqueue);
             st' = sweep D affinities groundtruth pos gradients_out (take (Suc k) pqueue)
         in (\<forall>l. l \<noteq> 0 \<longrightarrow> segmentSizes s l = count_list (data groundtruth) l) \<and>
            (\<forall>l. (\<Sum>r | r < N \<and> ufd_find (sets st) r = r. ov (bags st ! r) l)
                    = segmentSizes s l) \<and>
            (\<forall>r<N. ufd_find (sets st) r \<noteq> r \<longrightarrow> bags st ! r = []) \<and>
            (bags st' = bags st \<or>
             (\<exists>keep gone. keep < N \<and> gone < N \<and> keep \<noteq> gone \<and>
                ufd_find (sets st) keep = keep \<and> ufd_find (sets st) gone = gone \<and>
                ufd_find (sets st') keep = keep \<and> ufd_find (sets st') gone = keep \<and>
                (\<forall>l. ov (bags st' ! keep) l = ov (bags st ! keep) l + ov (bags st ! gone) l) \<and>
                bags st' ! gone = [] \<and>
                (\<forall>r<N. r \<noteq> keep \<longrightarrow> r \<noteq> gone \<longrightarrow> bags st' ! r = bags st ! r)))"
proof -
  let ?s = "scan_groundtruth groundtruth" and ?N = "view_size groundtruth"
  let ?L = "set (data groundtruth)"
  let ?pq = "sorted_edges affinities"
  let ?n = "normalization pos ?s"
  let ?init = "\<lparr>sets = ufd_init ?N, bags = overlaps ?s, loss = 0, nPairIncorrect = 0,
      gradients = gradients_out, nPairCounted = 0\<rparr>"
  let ?st = "sweep D affinities groundtruth pos gradients_out (take k ?pq)"
  let ?st' = "sweep D affinities groundtruth pos gradients_out (take (Suc k) ?pq)"
  have sa: "shape affinities = D # shape groundtruth"
    by (rule shapes_match_shapes(1) [OF assms])
  have lg: "length (shape groundtruth) = D" and wf: "length (data groundtruth) = ?N"
    using assms(2) by (simp_all add: wf_view_def)
  have fin: "finite ?L" by simp
  have sc: "scan_inv groundtruth ?L (data groundtruth) ?s"
    by (rule scan_groundtruth_inv [OF wf fin]) simp
  have inv0: "sweep_inv ?N ?L (segmentSizes ?s) pos ?init"
    by (rule sweep_inv_init [OF wf fin]) simp
  have lt: "\<forall>e\<in>set (take k ?pq). e < D * ?N"
    using set_take_subset [of k ?pq] sorted_edges_covers [OF sa] by auto
  have st: "?st = foldl (edge_step D affinities groundtruth pos ?n) ?init (take k ?pq)"
    by (simp add: sweep_def Let_def)
  from sweep_fold_inv [OF sa lg fin inv0 lt, of ?n]
  have inv: "sweep_inv ?N ?L (segmentSizes ?s) pos ?st"
    unfolding sweep_def Let_def by simp
  have seg: "\<forall>l. l \<noteq> 0 \<longrightarrow> segmentSizes ?s l = count_list (data groundtruth) l"
    using sc by (simp add: scan_inv_def)
  have sums: "\<forall>l. (\<Sum>r | r < ?N \<and> ufd_find (sets ?st) r = r. ov (bags ?st ! r) l)
                    = segmentSizes ?s l"
    using reps_sum [OF inv] by simp
  have empty: "\<forall>r<?N. ufd_find (sets ?st) r \<noteq> r \<longrightarrow> bags ?st ! r = []"
    using inv unfolding sweep_inv_def by blast
  have step: "bags ?st' = bags ?st \<or>
             (\<exists>keep gone. keep < ?N \<and> gone < ?N \<and> keep \<noteq> gone \<and>
                ufd_find (sets ?st) keep = keep \<and> ufd_find (sets ?st) gone = gone \<and>
                ufd_find (sets ?st') keep = keep \<and> ufd_find (sets ?st') gone = keep \<and>
                (\<forall>l. ov (bags ?st' ! keep) l = ov (bags ?st ! keep) l + ov (bags ?st ! gone) l) \<and>
                bags ?st' ! gone = [] \<and>
                (\<forall>r<?N. r \<noteq> keep \<longrightarrow> r \<noteq> gone \<longrightarrow> bags ?st' ! r = bags ?st ! r))"
  proof (cases "k < length ?pq")
    case False
    then have "take (Suc k) ?pq = take k ?pq" by simp
    then show ?thesis by simp
  next
    case True
    then have e: "?pq ! k < D * ?N"
      using sorted_edges_covers [OF sa] nth_mem [OF True] by auto
    have st': "?st' = edge_step D affinities groundtruth pos ?n ?st (?pq ! k)"
      using True by (simp add: sweep_def Let_def take_Suc_conv_app_nth)
    have nodes: "edge_valid D affinities (?pq ! k) \<Longrightarrow>
        edge_nodeU D affinities groundtruth (?pq ! k) < ?N \<and>
        edge_nodeV D affinities groundtruth (?pq ! k) < ?N"
      using edge_nodes_lt [OF sa lg e] by simp
    show ?thesis
      unfolding st' by (rule edge_step_bags [OF inv nodes])
  qed
  show ?thesis
    unfolding Let_def using seg sums empty step by blast
qed

theorem C9_label_count_conservation_witness:
  "wf_view (1 + 1) \<lparr>shape = [1, 4], data = [5 / 10, 9 / 10, 1 / 10, 8 / 10 :: real]\<rparr> \<and>
   wf_view 1 \<lparr>shape = [4], data = [1, 1, 2, 2 :: nat]\<rparr> \<and>
   wf_view (1 + 1) \<lparr>shape = [1, 4], data = [0, 0, 0, 0 :: real]\<rparr> \<and>
   shapes_match 1 \<lparr>shape = [1, 4], data = [5 / 10, 9 / 10, 1 / 10, 8 / 10]\<rparr>
     \<lparr>shape = [4], data = [1, 1, 2, 2]\<rparr> \<lparr>shape = [1, 4], data = [0, 0, 0, 0]\<rparr> \<and>
   (\<Sum>r | r < view_size \<lparr>shape = [4], data = [1, 1, 2, 2 :: nat]\<rparr> \<and>
          ufd_find (sets (sweep 1 \<lparr>shape = [1, 4], data = [5 / 10, 9 / 10, 1 / 10, 8 / 10]\<rparr>
             \<lparr>shape = [4], data = [1, 1, 2, 2]\<rparr> True \<lparr>shape = [1, 4], data = [0, 0, 0, 0]\<rparr>
             (take 2 (sorted_edges \<lparr>shape = [1, 4], data = [5 / 10, 9 / 10, 1 / 10, 8 / 10]\<rparr>)))) r = r.
        ov (bags (sweep 1 \<lparr>shape = [1, 4], data = [5 / 10, 9 / 10, 1 / 10, 8 / 10]\<rparr>
             \<lparr>shape = [4], data = [1, 1, 2, 2]\<rparr> True \<lparr>shape = [1, 4], data = [0, 0, 0, 0]\<rparr>
             (take 2 (sorted_edges \<lparr>shape = [1, 4], data = [5 / 10, 9 / 10, 1 / 10, 8 / 10]\<rparr>))) ! r) 2)
     = 2 \<and>
   bags (sweep 1 \<lparr>shape = [1, 4], data = [5 / 10, 9 / 10, 1 / 10, 8 / 10]\<rparr>
             \<lparr>shape = [4], data = [1, 1, 2, 2]\<rparr> True \<lparr>shape = [1, 4], data = [0, 0, 0, 0]\<rparr>
             (take 2 (sorted_edges \<lparr>shape = [1, 4], data = [5 / 10, 9 / 10, 1 / 10, 8 / 10]\<rparr>)))
     = [[], [(1, 2)], [], [(2, 2)]]"
proof -
  let ?a = "\<lparr>shape = [1, 4], data = [5 / 10, 9 / 10, 1 / 10, 8 / 10 :: real]\<rparr>"
  let ?g = "\<lparr>shape = [4], data = [1, 1, 2, 2 :: nat]\<rparr>"
  let ?o = "\<lparr>shape = [1, 4], data = [0, 0, 0, 0 :: real]\<rparr>"
  let ?w = "sweep 1 ?a ?g True ?o (take 2 (sorted_edges ?a))"
  have h1: "wf_view (1 + 1) ?a" by code_simp
  have h2: "wf_view 1 ?g" by code_simp
  have h3: "wf_view (1 + 1) ?o" by code_simp
  have h4: "shapes_match 1 ?a ?g ?o" by code_simp
  have v: "segmentSizes (scan_groundtruth ?g) 2 = 2" by code_simp
  have b: "bags ?w = [[], [(1, 2)], [], [(2, 2)]]" by code_simp
  have "\<forall>l. (\<Sum>r | r < view_size ?g \<and> ufd_find (sets ?w) r = r. ov (bags ?w ! r) l)
           = segmentSizes (scan_groundtruth ?g) l"
    using C9_label_count_conservation [OF h1 h2 h3 h4, of True 2]
    unfolding Let_def by (elim conjE)
  then have "(\<Sum>r | r < view_size ?g \<and> ufd_find (sets ?w) r = r. ov (bags ?w ! r) 2)
           = segmentSizes (scan_groundtruth ?g) 2"
    by (rule spec)
  then have "(\<Sum>r | r < view_size ?g \<and> ufd_find (sets ?w) r = r. ov (bags ?w ! r) 2) = 2"
    by (simp only: v)
  then show ?thesis
    using h1 h2 h3 h4 b by simp
qed

text \<open>
  C10. With matching shapes and a ground truth whose labeled pixels all carry one label
  \<open>l\<close>, at least two of them, the wrapper raises the degenerate-normalization error:
  the positive pass completes, the negative pass fails (\<open>nPairTot - nPairPos = 0\<close>), and
  the caller's outputs are as they were.
\<close>

theorem C10_single_label_constrained:
  assumes sa: "shape affinities = D # shape groundtruth"
    and wf: "wf_view D groundtruth"
    and l: "l \<noteq> 0" and only: "\<forall>x\<in>set (data groundtruth). x = 0 \<or> x = l"
    and two: "2 \<le> count_list (data groundtruth) l"
  shows "compute_constrained_malis_gradient D affinities groundtruth out
           = (Some DegenerateNormalization, out) \<and>
         (\<exists>outPos.
            compute_malis_gradient D (fst (synth_views D affinities groundtruth)) groundtruth True
              (local_outputs (marray_filled (shape affinities) 0)) = (None, outPos) \<and>
            compute_malis_gradient D (snd (synth_views D affinities groundtruth)) groundtruth False
              (outPos\<lparr>gradientsOut := marray_filled (shape affinities) 0, lossOut := undefined\<rparr>)
              = (Some DegenerateNormalization,
                 outPos\<lparr>gradientsOut := marray_filled (shape affinities) 0, lossOut := undefined\<rparr>))"
proof -
  let ?s = "scan_groundtruth groundtruth"
  let ?z = "marray_filled (shape affinities) 0"
  have wfd: "length (data groundtruth) = view_size groundtruth"
    using wf by (simp add: wf_view_def)
  have np: "nPairPos ?s = pairs (count_list (data groundtruth) l)"
    and nl: "numberOfLabeledNodes ?s = count_list (data groundtruth) l"
    by (rule scan_single_label [OF wfd l only])+
  have npos: "0 < normalization True ?s"
    using pairs_pos [OF two] by (simp add: normalization_def np)
  have nneg: "normalization False ?s = 0"
    by (simp add: normalization_def np nl pairs_def Let_def)
  have smp: "shapes_match D (fst (synth_views D affinities groundtruth)) groundtruth ?z"
    and smn: "shapes_match D (snd (synth_views D affinities groundtruth)) groundtruth ?z"
    using sa by (simp_all add: shapes_match_intro synth_views_shape marray_filled_def)
  obtain outPos where
    pos: "compute_malis_gradient D (fst (synth_views D affinities groundtruth)) groundtruth True
            (local_outputs ?z) = (None, outPos)"
    using smp npos by (simp add: compute_malis_gradient_def Let_def local_outputs_def)
  have neg: "compute_malis_gradient D (snd (synth_views D affinities groundtruth)) groundtruth False
            (outPos\<lparr>gradientsOut := ?z, lossOut := undefined\<rparr>)
          = (Some DegenerateNormalization, outPos\<lparr>gradientsOut := ?z, lossOut := undefined\<rparr>)"
    using smn nneg by (simp add: compute_malis_gradient_def Let_def)
  have "compute_constrained_malis_gradient D affinities groundtruth out
           = (Some DegenerateNormalization, out)"
    using pos neg
    by (simp add: compute_constrained_malis_gradient_def Let_def split_beta)
  then show ?thesis using pos neg by blast
qed

theorem C10_single_label_constrained_witness:
  "shape \<lparr>shape = [1, 4], data = [5 / 10, 9 / 10, 1 / 10, 8 / 10 :: real]\<rparr>
     = 1 # shape \<lparr>shape = [4], data = [1, 1, 0, 1 :: nat]\<rparr> \<and>
   wf_view 1 \<lparr>shape = [4], data = [1, 1, 0, 1 :: nat]\<rparr> \<and>
   2 \<le> count_list (data \<lparr>shape = [4], data = [1, 1, 0, 1 :: nat]\<rparr>) 1 \<and>
   compute_constrained_malis_gradient 1
     \<lparr>shape = [1, 4], data = [5 / 10, 9 / 10, 1 / 10, 8 / 10]\<rparr>
     \<lparr>shape = [4], data = [1, 1, 0, 1]\<rparr>
     (\<lparr>shape = [1, 4], data = [1, 2, 3, 4]\<rparr>, 5)
   = (Some DegenerateNormalization, (\<lparr>shape = [1, 4], data = [1, 2, 3, 4]\<rparr>, 5))"
proof -
  let ?a = "\<lparr>shape = [1, 4], data = [5 / 10, 9 / 10, 1 / 10, 8 / 10 :: real]\<rparr>"
  let ?g = "\<lparr>shape = [4], data = [1, 1, 0, 1 :: nat]\<rparr>"
  have h1: "shape ?a = 1 # shape ?g" by simp
  have h2: "wf_view 1 ?g" by code_simp
  have h3: "(1::nat) \<noteq> 0" by simp
  have h4: "\<forall>x\<in>set (data ?g). x = 0 \<or> x = 1" by simp
  have h5: "2 \<le> count_list (data ?g) 1" by code_simp
  show ?thesis
    using C10_single_label_constrained [OF h1 h2 h3 h4 h5] h1 h2 h5 by simp
qed

end
